theory Spec2Isabelle
  imports Complex_Main
begin

section \<open>Strings\<close>

text \<open>
  JavaScript strings are modelled as \<^typ>\<open>string\<close> (lists of characters). Only the
  operations the crawler calls are defined; \<open>toLowerCase\<close> and \<open>trim\<close> cover ASCII.
\<close>

definition startsWith :: "string \<Rightarrow> string \<Rightarrow> bool" where
  "startsWith s p \<longleftrightarrow> take (length p) s = p"

definition endsWith :: "string \<Rightarrow> string \<Rightarrow> bool" where
  "endsWith s p \<longleftrightarrow> length p \<le> length s \<and> drop (length s - length p) s = p"

text \<open>\<open>s.slice(0, -1)\<close>: the string without its last character.\<close>

definition slice_0_m1 :: "string \<Rightarrow> string" where
  "slice_0_m1 s = butlast s"

definition lower_char :: "char \<Rightarrow> char" where
  "lower_char c =
     (case map_of (zip ''ABCDEFGHIJKLMNOPQRSTUVWXYZ'' ''abcdefghijklmnopqrstuvwxyz'') c of
        Some l \<Rightarrow> l
      | None \<Rightarrow> c)"

definition toLowerCase :: "string \<Rightarrow> string" where
  "toLowerCase s = map lower_char s"

section \<open>The URL class\<close>

text \<open>
  \<open>new URL(s)\<close> comes from Node's library, not from this repository. A parsed URL
  is a record of what the accessors of the object return. The URL standard has
  three kinds of URL, and the \<open>pathname\<close> setter treats them differently:
  a special scheme (\<open>http\<close>, \<open>https\<close>, \<open>ws\<close>, \<open>wss\<close>, \<open>ftp\<close>, \<open>file\<close>), whose path is
  never empty; another scheme with a path of segments (\<open>foo://host/a\<close>, \<open>foo:/a\<close>),
  whose path may be empty; and another scheme with an opaque path (\<open>mailto:x\<close>).
  \<open>host\<close> is what the serialisation writes after \<open>//\<close> (user info, host and port),
  \<open>None\<close> for a null host. A null query or fragment is \<open>None\<close>. \<open>origin\<close> is the value
  of the accessor of that name (\<open>scheme://host:port\<close> for a special scheme other than
  \<open>file\<close>, the string \<open>null\<close> for most others); no setter changes it.
\<close>

datatype url_kind = Special | Segments | Opaque

record URL =
  kind :: url_kind
  scheme :: string
  host :: "string option"
  pathname :: string
  query :: "string option"
  fragment :: "string option"
  origin :: string

text \<open>
  \<open>u.toString()\<close>, the serialisation (\<open>href\<close>). A path of segments that starts with
  two slashes is written after \<open>/.\<close> when there is no host.
\<close>

definition toString :: "URL \<Rightarrow> string" where
  "toString u =
     scheme u @ '':''
     @ (case host u of
          Some h \<Rightarrow> ''//'' @ h
        | None \<Rightarrow> if kind u \<noteq> Opaque \<and> startsWith (pathname u) ''//'' then ''/.'' else [])
     @ pathname u
     @ (case query u of None \<Rightarrow> [] | Some q \<Rightarrow> CHR ''?'' # q)
     @ (case fragment u of None \<Rightarrow> [] | Some f \<Rightarrow> CHR ''#'' # f)"

text \<open>
  The \<open>hash\<close> setter: the empty string removes the fragment, and then an opaque path
  loses its trailing spaces when there is no query either; otherwise one leading
  \<open>#\<close> is dropped and the rest becomes the fragment.
\<close>

definition strip_trailing_spaces :: "string \<Rightarrow> string" where
  "strip_trailing_spaces s = rev (dropWhile (\<lambda>c. c = CHR '' '') (rev s))"

definition set_hash :: "URL \<Rightarrow> string \<Rightarrow> URL" where
  "set_hash u v =
     (if v = []
      then (if kind u = Opaque \<and> query u = None
            then u\<lparr>fragment := None, pathname := strip_trailing_spaces (pathname u)\<rparr>
            else u\<lparr>fragment := None\<rparr>)
      else u\<lparr>fragment := Some (if startsWith v ''#'' then tl v else v)\<rparr>)"

text \<open>
  The \<open>pathname\<close> setter, for a value made of characters that a serialised path
  holds already (the crawler passes a path without its last character). An opaque
  path is left alone. A path of segments is parsed anew, and a value that is not
  empty gives a path that starts with a slash. The empty value gives the root path
  \<open>/\<close> when the scheme is special or the host is null, and the empty path when the
  scheme is not special and there is a host.
\<close>

definition set_pathname :: "URL \<Rightarrow> string \<Rightarrow> URL" where
  "set_pathname u v =
     (if kind u = Opaque then u
      else u\<lparr>pathname :=
               (if v = [] then (if kind u = Special \<or> host u = None then ''/'' else [])
                else if startsWith v ''/'' then v
                else CHR ''/'' # v)\<rparr>)"

text \<open>
  The parser itself is a parameter of every function that calls \<open>new URL\<close>: a
  function \<open>string \<Rightarrow> URL option\<close>, \<open>None\<close> when the constructor throws. For evaluating
  the model at concrete URLs, \<open>parseURL\<close> below reads plain lower-case
  \<open>scheme://host/path?query#fragment\<close> strings the way the library does; it leaves
  out case folding, default ports, user info, percent-encoding, dot segments, the
  \<open>file\<close> scheme and URLs without \<open>//\<close>, and is used only at inputs without them.
\<close>

definition not_in :: "string \<Rightarrow> char \<Rightarrow> bool" where
  "not_in stops c \<longleftrightarrow> c \<notin> set stops"

definition parse_after_scheme :: "string \<Rightarrow> string \<Rightarrow> URL option" where
  "parse_after_scheme sch rest =
     (let h = takeWhile (not_in ''/?#'') rest;
          r1 = dropWhile (not_in ''/?#'') rest;
          p = takeWhile (not_in ''?#'') r1;
          r2 = dropWhile (not_in ''?#'') r1;
          q = (if startsWith r2 ''?'' then Some (takeWhile (not_in ''#'') (tl r2)) else None);
          r3 = dropWhile (not_in ''#'') r2;
          f = (if r3 = [] then None else Some (tl r3));
          special = (sch \<in> set [''http'', ''https'', ''ws'', ''wss'', ''ftp''])
      in if special \<and> h = [] then None
         else Some \<lparr>kind = (if special then Special else Segments), scheme = sch,
                    host = Some h, pathname = (if special \<and> p = [] then ''/'' else p),
                    query = q, fragment = f,
                    origin = (if special then sch @ ''://'' @ h else ''null'')\<rparr>)"

definition parseURL :: "string \<Rightarrow> URL option" where
  "parseURL s =
     (let sch = takeWhile (not_in '':/?#'') s;
          rest = dropWhile (not_in '':/?#'') s
      in if sch \<noteq> [] \<and> sch \<noteq> ''file'' \<and> startsWith rest ''://''
         then parse_after_scheme sch (drop 3 rest)
         else None)"

section \<open>Crawler: URL normalisation and validation\<close>

text \<open>\<open>Crawler.normalizeUrl\<close>: the empty string when the URL does not parse.\<close>

definition normalizeUrl :: "(string \<Rightarrow> URL option) \<Rightarrow> string \<Rightarrow> string" where
  "normalizeUrl parse url =
     (case parse url of
        None \<Rightarrow> []
      | Some parsed \<Rightarrow>
          (let parsed = set_hash parsed [];
               parsed = (if endsWith (pathname parsed) ''/''
                         then set_pathname parsed (slice_0_m1 (pathname parsed))
                         else parsed)
           in toString parsed))"

text \<open>
  The URL object that \<open>normalizeUrl\<close> serialises: the statements between the parse
  and \<open>toString\<close>, on their own.
\<close>

definition normalized :: "URL \<Rightarrow> URL" where
  "normalized parsed =
     (let parsed = set_hash parsed [];
          parsed = (if endsWith (pathname parsed) ''/''
                    then set_pathname parsed (slice_0_m1 (pathname parsed))
                    else parsed)
      in parsed)"

text \<open>
  \<open>Crawler.isValidUrl\<close>. The regular-expression engine is a parameter:
  \<open>rx pattern url\<close> is \<open>None\<close> when \<open>new RegExp(pattern)\<close> throws and otherwise the
  result of \<open>.test(url)\<close>. \<open>excluded\<close> is the loop over the patterns: \<open>Some True\<close> when
  a pattern matched (the function returns false), \<open>None\<close> when one threw.
\<close>

definition extensions :: "string list" where
  "extensions = [''.jpg'', ''.jpeg'', ''.png'', ''.gif'', ''.pdf'', ''.css'', ''.js'',
                 ''.ico'', ''.svg'', ''.mp4'']"

fun excluded :: "(string \<Rightarrow> string \<Rightarrow> bool option) \<Rightarrow> string list \<Rightarrow> string \<Rightarrow> bool option" where
  "excluded rx [] url = Some False"
| "excluded rx (pattern # rest) url =
     (case rx pattern url of
        None \<Rightarrow> None
      | Some True \<Rightarrow> Some True
      | Some False \<Rightarrow> excluded rx rest url)"

definition isValidUrl ::
  "(string \<Rightarrow> URL option) \<Rightarrow> (string \<Rightarrow> string \<Rightarrow> bool option) \<Rightarrow> string
     \<Rightarrow> string list option \<Rightarrow> string \<Rightarrow> bool" where
  "isValidUrl parse rx base patterns url =
     (if url = [] then False
      else case parse url of
        None \<Rightarrow> False
      | Some parsed \<Rightarrow>
          if origin parsed \<noteq> base then False
          else (case (case patterns of None \<Rightarrow> Some False | Some ps \<Rightarrow> excluded rx ps url) of
                  None \<Rightarrow> False
                | Some True \<Rightarrow> False
                | Some False \<Rightarrow>
                    if list_ex (\<lambda>ext. endsWith (toLowerCase (pathname parsed)) ext) extensions
                    then False
                    else True))"

section \<open>Storage keys\<close>

text \<open>
  \<open>getHierarchicalKey\<close> of \<open>index.ts\<close>; \<open>md5\<close> stands for \<open>getUrlHash\<close> (the hex MD5
  digest from Node's \<open>crypto\<close>). \<open>jsonKey\<close> is the key \<open>main\<close> stores a page under.
\<close>

definition getHierarchicalKey ::
  "(string \<Rightarrow> URL option) \<Rightarrow> (string \<Rightarrow> string) \<Rightarrow> string \<Rightarrow> string \<Rightarrow> string" where
  "getHierarchicalKey parse md5 url domain =
     (case parse url of
        None \<Rightarrow> domain @ ''/'' @ md5 url
      | Some parsed \<Rightarrow>
          (let p = pathname parsed;
               p = (if \<not> startsWith p ''/'' then CHR ''/'' # p else p);
               p = (if endsWith p ''/'' \<and> length p > 1 then slice_0_m1 p else p);
               p = (if p = ''/'' then ''/index'' else p)
           in domain @ p))"

definition jsonKey ::
  "(string \<Rightarrow> URL option) \<Rightarrow> (string \<Rightarrow> string) \<Rightarrow> string \<Rightarrow> string \<Rightarrow> string" where
  "jsonKey parse md5 url domain = getHierarchicalKey parse md5 url domain @ ''.json''"

text \<open>
  The path rule as the specification words it: ensure a leading slash, strip one
  trailing slash (the root path keeps its only slash), and name the root \<open>/index\<close>.
\<close>

fun strip_trailing_slash :: "string \<Rightarrow> string" where
  "strip_trailing_slash [] = []"
| "strip_trailing_slash [c] = [c]"
| "strip_trailing_slash (c # d # cs) =
     (if d = CHR ''/'' \<and> cs = [] then [c] else c # strip_trailing_slash (d # cs))"

definition spec_key_path :: "string \<Rightarrow> string" where
  "spec_key_path path =
     (let with_slash = (case path of
                          [] \<Rightarrow> ''/''
                        | c # _ \<Rightarrow> if c = CHR ''/'' then path else CHR ''/'' # path);
          stripped = strip_trailing_slash with_slash
      in if stripped = ''/'' then ''/index'' else stripped)"

section \<open>Crawler: the breadth-first loop\<close>

datatype resource_type = Image | Pdf | Other

record PageResource =
  resource_url :: string
  resource_type :: resource_type
  buffer :: "nat list"
  extension :: string

record PageResult =
  page_url :: string
  title :: string
  content :: string
  links :: "string list"
  resources :: "PageResource list"

text \<open>
  A JavaScript \<open>number\<close>: not-a-number, a finite value (every finite double is a
  rational) or an infinity. \<open>parseInt\<close> gives an integer, \<open>NaN\<close> or, for a literal
  of several hundred digits, an infinity; a caller of the exported class can pass
  any number. The counters of the loop (\<open>current.depth\<close>, \<open>pagesProcessed\<close>) start
  at 0 and grow by 1, so they are naturals; \<open>nat_lt n m\<close>, \<open>nat_gt n m\<close> and
  \<open>nat_le n m\<close> are \<open>n < m\<close>, \<open>n > m\<close> and \<open>n <= m\<close> of JavaScript for such a counter
  \<open>n\<close> and a number \<open>m\<close>: every comparison with \<open>NaN\<close> is false.
\<close>

datatype number = NaN | Num rat | Infinity | MinusInfinity

fun nat_lt :: "nat \<Rightarrow> number \<Rightarrow> bool" where
  "nat_lt n NaN = False"
| "nat_lt n (Num q) = (of_nat n < q)"
| "nat_lt n Infinity = True"
| "nat_lt n MinusInfinity = False"

fun nat_gt :: "nat \<Rightarrow> number \<Rightarrow> bool" where
  "nat_gt n NaN = False"
| "nat_gt n (Num q) = (of_nat n > q)"
| "nat_gt n Infinity = False"
| "nat_gt n MinusInfinity = True"

fun nat_le :: "nat \<Rightarrow> number \<Rightarrow> bool" where
  "nat_le n NaN = False"
| "nat_le n (Num q) = (of_nat n \<le> q)"
| "nat_le n Infinity = True"
| "nat_le n MinusInfinity = False"

text \<open>
  How many naturals lie below a number that is not \<open>Infinity\<close>: none below \<open>NaN\<close>,
  a negative number or zero, and \<open>\<lceil>q\<rceil>\<close> below a positive \<open>q\<close>.
\<close>

fun naturals_below :: "number \<Rightarrow> nat" where
  "naturals_below (Num q) = nat \<lceil>q\<rceil>"
| "naturals_below _ = 0"

text \<open>The interfaces of \<open>types.ts\<close>. An optional field is an option.\<close>

record CrawlRequest =
  url :: string
  depth :: "number option"
  maxPages :: "number option"
  excludePatterns :: "string list option"
  includeUrls :: "string list option"
  includeResources :: bool

text \<open>
  What a Playwright page gives once \<open>page.goto\<close> has resolved; every accessor that
  can reject is an option (\<open>None\<close>: it throws). \<open>response_url\<close> is \<open>None\<close> when \<open>goto\<close>
  resolves to null. \<open>hrefs\<close> are the \<open>href\<close> of the anchors; \<open>found_resources\<close> is the
  outcome of \<open>extractResources\<close>, whose downloads are left to the browser and the network.
\<close>

record Page =
  response_url :: "string option"
  page_title :: "string option"
  body_text :: "string option"
  hrefs :: "string list option"
  found_resources :: "PageResource list option"

text \<open>
  The outside world of one run: the URL parser, the regular-expression engine and
  the browser. \<open>goto n url\<close> is the navigation of the \<open>n\<close>-th page opened in the run,
  \<open>None\<close> when \<open>page.goto\<close> rejects (navigation error or timeout).
\<close>

record env =
  parse :: "string \<Rightarrow> URL option"
  regexTest :: "string \<Rightarrow> string \<Rightarrow> bool option"
  goto :: "nat \<Rightarrow> string \<Rightarrow> Page option"

datatype log_line = Crawling string nat | Redirected string string | Failed string

text \<open>
  The fields of the \<open>Crawler\<close> object and the locals of \<open>crawl\<close>. \<open>console\<close> holds the
  lines the loop logs; \<open>pushed\<close> records every entry given to \<open>queue.push\<close>, in order
  (the queue forgets an entry once it is shifted); \<open>opened\<close> counts \<open>newPage\<close> calls.
  No branch reads \<open>console\<close> or \<open>pushed\<close>.
\<close>

record crawl_state =
  queue :: "(string \<times> nat) list"
  visitedUrls :: "string set"
  results :: "PageResult list"
  baseUrl :: string
  pagesProcessed :: nat
  opened :: nat
  console :: "log_line list"
  pushed :: "(string \<times> nat) list"

definition extractLinks :: "Page \<Rightarrow> string list option" where
  "extractLinks page = map_option (filter (\<lambda>href. startsWith href ''http'')) (hrefs page)"

definition extractContent :: "CrawlRequest \<Rightarrow> Page \<Rightarrow> string \<Rightarrow> PageResult option" where
  "extractContent rq page u =
     (case page_title page of
        None \<Rightarrow> None
      | Some t \<Rightarrow>
          (case body_text page of
             None \<Rightarrow> None
           | Some c \<Rightarrow>
               (case extractLinks page of
                  None \<Rightarrow> None
                | Some ls \<Rightarrow>
                    (case (if includeResources rq then found_resources page else Some []) of
                       None \<Rightarrow> None
                     | Some rs \<Rightarrow>
                         Some \<lparr>page_url = u, title = t, content = c, links = ls,
                               resources = rs\<rparr>))))"

text \<open>The constructor: \<open>None\<close> when \<open>new URL(request.url)\<close> throws.\<close>

definition newCrawler :: "env \<Rightarrow> CrawlRequest \<Rightarrow> crawl_state option" where
  "newCrawler E rq =
     (case parse E (url rq) of
        None \<Rightarrow> None
      | Some u \<Rightarrow>
          Some \<lparr>queue = [], visitedUrls = {}, results = [], baseUrl = origin u,
                pagesProcessed = 0, opened = 0, console = [], pushed = []\<rparr>)"

definition push :: "string \<times> nat \<Rightarrow> crawl_state \<Rightarrow> crawl_state" where
  "push e s = s\<lparr>queue := queue s @ [e], pushed := pushed s @ [e]\<rparr>"

definition visit :: "string \<Rightarrow> crawl_state \<Rightarrow> crawl_state" where
  "visit n s = s\<lparr>visitedUrls := insert n (visitedUrls s)\<rparr>"

text \<open>Seeding (lines 63 to 73 of \<open>crawler.ts\<close>).\<close>

definition seed_one :: "env \<Rightarrow> string \<Rightarrow> crawl_state \<Rightarrow> crawl_state" where
  "seed_one E u s = visit (normalizeUrl (parse E) u) (push (u, 0) s)"

definition seed :: "env \<Rightarrow> CrawlRequest \<Rightarrow> crawl_state \<Rightarrow> crawl_state" where
  "seed E rq s =
     (case includeUrls rq of
        None \<Rightarrow> seed_one E (url rq) s
      | Some us \<Rightarrow> if length us > 0 then fold (seed_one E) us s else seed_one E (url rq) s)"

text \<open>
  The body of the loop over the extracted links (lines 127 to 139) for one link;
  \<open>d\<close> is the depth of the page the link was found on.
\<close>

definition consider_link :: "env \<Rightarrow> CrawlRequest \<Rightarrow> nat \<Rightarrow> string \<Rightarrow> crawl_state \<Rightarrow> crawl_state" where
  "consider_link E rq d link s =
     (let normalized = normalizeUrl (parse E) link
      in if isValidUrl (parse E) (regexTest E) (baseUrl s) (excludePatterns rq) link
            \<and> normalized \<notin> visitedUrls s
         then (if startsWith link (url rq) then push (link, d + 1) (visit normalized s) else s)
         else s)"

text \<open>
  The redirect check on the first page (lines 110 to 116): \<open>None\<close> when
  \<open>new URL(response.url())\<close> throws.
\<close>

definition rebase :: "env \<Rightarrow> CrawlRequest \<Rightarrow> Page \<Rightarrow> crawl_state \<Rightarrow> crawl_state option" where
  "rebase E rq page s =
     (case response_url page of
        None \<Rightarrow> Some s
      | Some final \<Rightarrow>
          if pagesProcessed s = 0 \<and> includeUrls rq = None
          then (case parse E final of
                  None \<Rightarrow> None
                | Some finalUrl \<Rightarrow>
                    if origin finalUrl \<noteq> baseUrl s
                    then Some (s\<lparr>console := console s @ [Redirected (baseUrl s) (origin finalUrl)],
                                 baseUrl := origin finalUrl\<rparr>)
                    else Some s)
          else Some s)"

definition failed :: "string \<Rightarrow> crawl_state \<Rightarrow> crawl_state" where
  "failed u s = s\<lparr>console := console s @ [Failed u]\<rparr>"

text \<open>\<open>this.results.push(result); pagesProcessed++\<close> (lines 119 and 120).\<close>

definition counted :: "PageResult \<Rightarrow> crawl_state \<Rightarrow> crawl_state" where
  "counted r s = s\<lparr>results := results s @ [r], pagesProcessed := pagesProcessed s + 1\<rparr>"

text \<open>
  The inner \<open>try\<close> block with its \<open>catch\<close> (lines 92 to 145) for the entry \<open>(u, d)\<close>.
  A throw leaves the state as it was at that point and logs the failure.
\<close>

definition try_page :: "env \<Rightarrow> CrawlRequest \<Rightarrow> string \<times> nat \<Rightarrow> crawl_state \<Rightarrow> crawl_state" where
  "try_page E rq current s =
     (case goto E (opened s) (fst current) of
        None \<Rightarrow> failed (fst current) (s\<lparr>opened := opened s + 1\<rparr>)
      | Some page \<Rightarrow>
          (case rebase E rq page (s\<lparr>opened := opened s + 1\<rparr>) of
             None \<Rightarrow> failed (fst current) (s\<lparr>opened := opened s + 1\<rparr>)
           | Some s1 \<Rightarrow>
               (case extractContent rq page (fst current) of
                  None \<Rightarrow> failed (fst current) s1
                | Some result \<Rightarrow>
                    (let s2 = counted result s1
                     in if includeUrls rq = None
                           \<and> (case depth rq of None \<Rightarrow> True | Some m \<Rightarrow> nat_lt (snd current) m)
                        then (case extractLinks page of
                                None \<Rightarrow> failed (fst current) s2
                              | Some ls \<Rightarrow> fold (consider_link E rq (snd current)) ls s2)
                        else s2))))"

text \<open>One iteration of the \<open>while\<close> loop (lines 81 to 146); the queue is not empty.\<close>

definition step :: "env \<Rightarrow> CrawlRequest \<Rightarrow> crawl_state \<Rightarrow> crawl_state" where
  "step E rq s =
     (case queue s of
        [] \<Rightarrow> s
      | current # rest \<Rightarrow>
          (let s0 = s\<lparr>queue := rest\<rparr>
           in if (case depth rq of None \<Rightarrow> False | Some m \<Rightarrow> nat_gt (snd current) m) then s0
              else try_page E rq current
                     (s0\<lparr>console := console s0 @ [Crawling (fst current) (snd current)]\<rparr>)))"

text \<open>
  The \<open>while\<close> loop; \<open>maxPages'\<close> is the local \<open>maxPages\<close>. With \<open>Infinity\<close> for
  \<open>maxPages\<close> the loop ends only when the queue runs empty, which a site that keeps
  yielding new links never allows: \<open>None\<close> is a loop that does not end.
\<close>

partial_function (option) crawl_loop ::
  "env \<Rightarrow> CrawlRequest \<Rightarrow> number \<Rightarrow> crawl_state \<Rightarrow> crawl_state option" where
  "crawl_loop E rq maxPages' s =
     (if length (queue s) > 0 \<and> nat_lt (pagesProcessed s) maxPages'
      then crawl_loop E rq maxPages' (step E rq s)
      else Some s)"

declare crawl_loop.simps [code]

text \<open>
  \<open>Crawler.crawl\<close> on a fresh crawler: the final state, whose \<open>results\<close> it returns.
\<close>

definition crawl :: "env \<Rightarrow> CrawlRequest \<Rightarrow> crawl_state \<Rightarrow> crawl_state option" where
  "crawl E rq s =
     crawl_loop E rq (case maxPages rq of None \<Rightarrow> Num 50 | Some m \<Rightarrow> m) (seed E rq s)"



text \<open>The \<open>Crawling: url (Depth: d)\<close> lines of a console log.\<close>

fun crawled :: "log_line list \<Rightarrow> (string \<times> nat) list" where
  "crawled [] = []"
| "crawled (Crawling u d # ls) = (u, d) # crawled ls"
| "crawled (_ # ls) = crawled ls"

section \<open>DiscoveryService\<close>

text \<open>
  \<open>s.split(sep)\<close> for a separator that is not empty, and \<open>s.trim()\<close> for ASCII white
  space.
\<close>

fun split_from :: "string \<Rightarrow> string \<Rightarrow> string \<Rightarrow> string list" where
  "split_from sep acc [] = [rev acc]"
| "split_from sep acc (c # cs) =
     (if startsWith (c # cs) sep then rev acc # split_from sep [] (drop (length sep - 1) cs)
      else split_from sep (c # acc) cs)"

definition js_split :: "string \<Rightarrow> string \<Rightarrow> string list" where
  "js_split s sep = split_from sep [] s"

definition is_space :: "char \<Rightarrow> bool" where
  "is_space c \<longleftrightarrow> c \<in> set [CHR '' '', CHR 0x09, CHR 0x0A, CHR 0x0B, CHR 0x0C, CHR 0x0D]"

definition trim :: "string \<Rightarrow> string" where
  "trim s = rev (dropWhile is_space (rev (dropWhile is_space s)))"

text \<open>
  The network and the XML parser are parameters. \<open>axios_get u\<close> is \<open>None\<close> when the
  request itself fails. \<open>response.data\<close> is the body as a string (\<open>Text\<close>) unless the
  body is valid JSON, which axios parses: \<open>NotText\<close> is a parsed value that is not a
  string (an object, an array, a number, a boolean or null). \<open>xml_parse\<close> is what
  \<open>XMLParser.parse\<close> makes of \<open>response.data\<close>, \<open>None\<close> when it throws. Of the
  parsed document only what \<open>fetchSitemap\<close> reads is kept: \<open>sitemapindex_sitemap\<close> is
  \<open>parsed.sitemapindex.sitemap\<close> and \<open>urlset_url\<close> is \<open>parsed.urlset.url\<close>, \<open>None\<close> when the
  test \<open>parsed.x && parsed.x.y\<close> is falsy; a repeated tag is an array, a single one is
  the object itself; an entry is its \<open>loc\<close>, \<open>None\<close> when it has none.
\<close>

datatype response_data = Text string | NotText

record http_response =
  status :: nat
  data :: response_data

datatype 'a one_or_many = One 'a | Many "'a list"

record parsed_xml =
  sitemapindex_sitemap :: "string option one_or_many option"
  urlset_url :: "string option one_or_many option"

record net =
  axios_get :: "string \<Rightarrow> http_response option"
  xml_parse :: "response_data \<Rightarrow> parsed_xml option"

text \<open>\<open>Array.isArray(x) ? x : [x]\<close>, and the truthiness of a \<open>loc\<close>.\<close>

fun as_array :: "'a one_or_many \<Rightarrow> 'a list" where
  "as_array (One x) = [x]"
| "as_array (Many xs) = xs"

fun truthy :: "string option \<Rightarrow> bool" where
  "truthy None = False"
| "truthy (Some l) = (l \<noteq> [])"

text \<open>
  The two \<open>for\<close> loops of \<open>fetchSitemap\<close>; \<open>resolve\<close> is the recursive call.
\<close>

fun resolve_children ::
  "(string \<Rightarrow> string list option) \<Rightarrow> string option list \<Rightarrow> string list option" where
  "resolve_children resolve [] = Some []"
| "resolve_children resolve (sm # rest) =
     (if truthy sm
      then (case resolve (the sm) of
              None \<Rightarrow> None
            | Some found \<Rightarrow> map_option (\<lambda>more. found @ more) (resolve_children resolve rest))
      else resolve_children resolve rest)"

definition collect_locs :: "string option list \<Rightarrow> string list" where
  "collect_locs entries = map the (filter truthy entries)"

text \<open>
  \<open>DiscoveryService.fetchSitemap\<close>. The source recurses without a bound, so the
  model carries fuel, the number of nested calls allowed: \<open>None\<close> means the call has
  not returned within that nesting. The \<open>catch\<close> turns a failed request (the default
  \<open>validateStatus\<close> rejects a status outside 200 to 299) or a failed parse into \<open>[]\<close>.
\<close>

fun fetchSitemap :: "net \<Rightarrow> nat \<Rightarrow> string \<Rightarrow> string list option" where
  "fetchSitemap N 0 u = None"
| "fetchSitemap N (Suc k) u =
     (case axios_get N u of
        None \<Rightarrow> Some []
      | Some response \<Rightarrow>
          if \<not> (200 \<le> status response \<and> status response < 300) then Some []
          else (case xml_parse N (data response) of
                  None \<Rightarrow> Some []
                | Some parsed \<Rightarrow>
                    (case sitemapindex_sitemap parsed of
                       Some sitemaps \<Rightarrow>
                         resolve_children (\<lambda>l. fetchSitemap N k l) (as_array sitemaps)
                     | None \<Rightarrow>
                         (case urlset_url parsed of
                            Some entries \<Rightarrow> Some (collect_locs (as_array entries))
                          | None \<Rightarrow> Some []))))"

text \<open>
  \<open>DiscoveryService.getUrlsFromRobotsTxt\<close>: \<open>from_lines\<close> is the loop over the
  \<open>sitemap:\<close> lines, \<open>probe\<close> the loop over the common locations, both with the
  \<open>urls\<close> collected so far. The request accepts every status. When \<open>response.data\<close>
  is not a string, \<open>response.data.split\<close> throws and the \<open>catch\<close> returns \<open>[]\<close>.
\<close>

definition commonSitemaps :: "string list" where
  "commonSitemaps = [''/sitemap.xml'', ''/sitemap_index.xml'', ''/wp-sitemap.xml'']"

definition sitemap_of_line :: "string \<Rightarrow> string option" where
  "sitemap_of_line line =
     (case js_split line '': '' of
        _ # second # _ \<Rightarrow> Some (trim second)
      | _ \<Rightarrow> None)"

fun from_lines :: "net \<Rightarrow> nat \<Rightarrow> string list \<Rightarrow> string list \<Rightarrow> string list option" where
  "from_lines N k urls [] = Some urls"
| "from_lines N k urls (line # rest) =
     (if truthy (sitemap_of_line line)
      then (case fetchSitemap N k (the (sitemap_of_line line)) of
              None \<Rightarrow> None
            | Some sitemapUrls \<Rightarrow> from_lines N k (urls @ sitemapUrls) rest)
      else from_lines N k urls rest)"

fun probe :: "net \<Rightarrow> nat \<Rightarrow> string \<Rightarrow> string list \<Rightarrow> string list \<Rightarrow> string list option" where
  "probe N k base urls [] = Some urls"
| "probe N k base urls (path # rest) =
     (case fetchSitemap N k (base @ path) of
        None \<Rightarrow> None
      | Some commonUrls \<Rightarrow>
          (let urls = urls @ commonUrls
           in if length urls > 0 then Some urls else probe N k base urls rest))"

definition getUrlsFromRobotsTxt :: "net \<Rightarrow> nat \<Rightarrow> string \<Rightarrow> string list option" where
  "getUrlsFromRobotsTxt N k base =
     (case axios_get N (base @ ''/robots.txt'') of
        None \<Rightarrow> Some []
      | Some response \<Rightarrow>
          if status response \<noteq> 200 then Some []
          else (case data response of
                  NotText \<Rightarrow> Some []
                | Text body \<Rightarrow>
                    (let sitemapLines =
                           filter (\<lambda>line. startsWith (toLowerCase line) ''sitemap:'')
                             (js_split body [CHR 0x0A])
                     in case from_lines N k [] sitemapLines of
                          None \<Rightarrow> None
                        | Some urls \<Rightarrow>
                            if length urls = 0 then probe N k base urls commonSitemaps
                            else Some urls)))"

section \<open>Concrete worlds for evaluation\<close>

text \<open>
  A regular-expression engine for patterns without metacharacters: such a pattern
  matches exactly the subjects it occurs in.
\<close>

fun occurs :: "string \<Rightarrow> string \<Rightarrow> bool" where
  "occurs pat [] = (pat = [])"
| "occurs pat (c # cs) = (startsWith (c # cs) pat \<or> occurs pat cs)"

definition literal_rx :: "string \<Rightarrow> string \<Rightarrow> bool option" where
  "literal_rx pattern subject = Some (occurs pattern subject)"

text \<open>
  A page whose accessors all succeed, and the state of a freshly constructed crawler.
\<close>

definition plain_page :: "string \<Rightarrow> string list \<Rightarrow> Page" where
  "plain_page final ls =
     \<lparr>response_url = Some final, page_title = Some ''title'', body_text = Some ''text'',
      hrefs = Some ls, found_resources = Some []\<rparr>"

definition fresh :: "string \<Rightarrow> crawl_state" where
  "fresh base = \<lparr>queue = [], visitedUrls = {}, results = [], baseUrl = base,
                  pagesProcessed = 0, opened = 0, console = [], pushed = []\<rparr>"

text \<open>
  The end-to-end scenario of the specification: the seed page of \<open>site.test\<close> links
  to five pages of the site and one of another site; every page renders.
\<close>

definition site_test :: env where
  "site_test =
     \<lparr>parse = parseURL, regexTest = literal_rx,
      goto = (\<lambda>n u. if u = ''https://site.test/''
                      then Some (plain_page u [''https://site.test/a'', ''https://site.test/b'',
                                   ''https://other.test/x'', ''https://site.test/c'',
                                   ''https://site.test/d'', ''https://site.test/e''])
                      else Some (plain_page u []))\<rparr>"

definition site_request :: CrawlRequest where
  "site_request =
     \<lparr>url = ''https://site.test/'', depth = Some (Num 1), maxPages = Some (Num 3),
      excludePatterns = None,
      includeUrls = None,
      includeResources = False\<rparr>"

text \<open>The same site and seed with other limits.\<close>

definition limits_request :: "number \<Rightarrow> number \<Rightarrow> CrawlRequest" where
  "limits_request d m = site_request\<lparr>depth := Some d, maxPages := Some m\<rparr>"

text \<open>
  A browser that fails to navigate to one page, and a manifest of two pages.
\<close>

definition flaky :: env where
  "flaky = \<lparr>parse = parseURL, regexTest = literal_rx,
            goto = (\<lambda>n u. if u = ''https://site.test/a'' then None
                           else Some (plain_page u []))\<rparr>"

definition manifest_request :: CrawlRequest where
  "manifest_request =
     \<lparr>url = ''https://site.test/a'', depth = Some (Num 2), maxPages = Some (Num 2),
      excludePatterns = None,
      includeUrls = Some [''https://site.test/a'', ''https://site.test/b/''],
      includeResources = False\<rparr>"


text \<open>A manifest that lists one page twice.\<close>

definition twice_request :: CrawlRequest where
  "twice_request =
     \<lparr>url = ''https://site.test/a'', depth = Some (Num 2), maxPages = Some (Num 2),
      excludePatterns = None,
      includeUrls = Some [''https://site.test/a'', ''https://site.test/a''],
      includeResources = False\<rparr>"





text \<open>
  Parsed sitemap documents, and two sites. The body of a response is a short name
  and the XML parser maps the name to the document served. \<open>no_robots\<close> has no
  \<open>robots.txt\<close> (status 404) and a \<open>/sitemap.xml\<close> that lists one page.
  \<open>indexed_site\<close> names a sitemap index in its \<open>robots.txt\<close>; the index has three
  children, of which one cannot be fetched and the others list three and five pages;
  \<open>pair.xml\<close> is an index of these two alone.
\<close>

definition urlset_doc :: "string list \<Rightarrow> parsed_xml" where
  "urlset_doc ls = \<lparr>sitemapindex_sitemap = None, urlset_url = Some (Many (map Some ls))\<rparr>"


definition no_robots :: net where
  "no_robots =
     \<lparr>axios_get =
        (\<lambda>u. if u = ''https://ex.com/robots.txt''
             then Some \<lparr>status = 404, data = Text ''Not Found''\<rparr>
             else if u = ''https://ex.com/sitemap.xml''
             then Some \<lparr>status = 200, data = Text ''<urlset>''\<rparr>
             else None),
      xml_parse =
        (\<lambda>d. if d = Text ''<urlset>'' then Some (urlset_doc [''https://ex.com/a'']) else None)\<rparr>"


section \<open>Invariants of a run\<close>

text \<open>
  A run stays within its limits: the results are the pages counted, and unless the
  limit is \<open>Infinity\<close> they number at most the naturals below it; no \<open>Crawling\<close> line
  has a depth greater than \<open>depth\<close>; every result was logged.
\<close>

definition within_limits :: "CrawlRequest \<Rightarrow> number \<Rightarrow> crawl_state \<Rightarrow> bool" where
  "within_limits rq cap s \<longleftrightarrow>
     length (results s) = pagesProcessed s
     \<and> (cap = Infinity \<or> pagesProcessed s \<le> naturals_below cap)
     \<and> (\<forall>d. depth rq = Some d \<longrightarrow> (\<forall>e\<in>set (crawled (console s)). \<not> nat_gt (snd e) d))
     \<and> (\<forall>r\<in>set (results s). page_url r \<in> fst ` set (crawled (console s)))"

text \<open>
  No entry is pushed twice: the normalised URLs of the pushed entries are distinct
  and all in the visited set.
\<close>

definition nf :: "env \<Rightarrow> string \<times> nat \<Rightarrow> string" where
  "nf E e = normalizeUrl (parse E) (fst e)"

definition no_duplicates :: "env \<Rightarrow> crawl_state \<Rightarrow> bool" where
  "no_duplicates E s \<longleftrightarrow>
     distinct (map (nf E) (pushed s)) \<and> nf E ` set (pushed s) \<subseteq> visitedUrls s"







section \<open>Properties of URL validation\<close>

lemma excluded_none_matched:
  "excluded rx ps u = Some False \<longleftrightarrow> (\<forall>pattern\<in>set ps. rx pattern u = Some False)"
  by (induction ps) (auto split: option.splits bool.splits)

text \<open>
  C5. \<open>isValidUrl\<close> (the specification's \<open>isCrawlable\<close>, with the crawler's current
  origin as \<open>base\<close>) returns true only if the URL parses, its origin is \<open>base\<close>, every
  exclude pattern compiles and fails to match the full URL string, and the lower-cased
  path ends in none of the listed extensions. The function is total: each throw of
  the source is a branch that yields false, and a URL that does not parse yields false.
\<close>

theorem isValidUrl_true_only_if:
  "(isValidUrl prs rx base patterns u \<longrightarrow>
      (\<exists>parsed. prs u = Some parsed \<and> origin parsed = base
         \<and> (\<forall>pattern\<in>set (case patterns of None \<Rightarrow> [] | Some ps \<Rightarrow> ps).
               rx pattern u = Some False)
         \<and> (\<forall>ext\<in>set extensions. \<not> endsWith (toLowerCase (pathname parsed)) ext)))
   \<and> (prs u = None \<longrightarrow> \<not> isValidUrl prs rx base patterns u)"
  by (auto simp: isValidUrl_def excluded_none_matched list_ex_iff
           split: option.splits bool.splits if_splits)

theorem isValidUrl_true_only_if_witness:
  "isValidUrl parseURL literal_rx ''https://ex.com'' (Some [''/private''])
     ''https://ex.com/docs/intro''
   \<and> (\<exists>parsed. parseURL ''https://ex.com/docs/intro'' = Some parsed
         \<and> origin parsed = ''https://ex.com''
         \<and> literal_rx ''/private'' ''https://ex.com/docs/intro'' = Some False
         \<and> \<not> endsWith (toLowerCase (pathname parsed)) ''.pdf'')
   \<and> \<not> isValidUrl parseURL literal_rx ''https://ex.com'' (Some [''/private''])
         ''https://ex.com/a.pdf''
   \<and> \<not> isValidUrl parseURL literal_rx ''https://ex.com'' (Some [''/private''])
         ''https://other.com/docs''
   \<and> \<not> isValidUrl parseURL literal_rx ''https://ex.com'' (Some [''/private''])
         ''https://ex.com/private/x''
   \<and> \<not> isValidUrl parseURL literal_rx ''https://ex.com'' (Some [''/private''])
         ''not a url''"
proof -
  have v: "isValidUrl parseURL literal_rx ''https://ex.com'' (Some [''/private''])
             ''https://ex.com/docs/intro''"
    by code_simp
  have r: "\<not> isValidUrl parseURL literal_rx ''https://ex.com'' (Some [''/private''])
               ''https://ex.com/a.pdf''"
     "\<not> isValidUrl parseURL literal_rx ''https://ex.com'' (Some [''/private''])
         ''https://other.com/docs''"
     "\<not> isValidUrl parseURL literal_rx ''https://ex.com'' (Some [''/private''])
         ''https://ex.com/private/x''"
    by code_simp+
  have n: "parseURL ''not a url'' = None"
    by code_simp
  from isValidUrl_true_only_if [of parseURL literal_rx "''https://ex.com''"
         "Some [''/private'']" "''https://ex.com/docs/intro''"] v
  obtain parsed where "parseURL ''https://ex.com/docs/intro'' = Some parsed"
    "origin parsed = ''https://ex.com''"
    "literal_rx ''/private'' ''https://ex.com/docs/intro'' = Some False"
    "\<not> endsWith (toLowerCase (pathname parsed)) ''.pdf''"
    by (auto simp: extensions_def)
  moreover from isValidUrl_true_only_if [of parseURL literal_rx "''https://ex.com''"
         "Some [''/private'']" "''not a url''"] n
  have "\<not> isValidUrl parseURL literal_rx ''https://ex.com'' (Some [''/private''])
            ''not a url''"
    by blast
  ultimately show ?thesis using v r by blast
qed

section \<open>Properties of the storage keys\<close>

lemma endsWith_slash: "endsWith s ''/'' \<longleftrightarrow> s \<noteq> [] \<and> last s = CHR ''/''"
proof (cases "s = []")
  case True
  then show ?thesis by (simp add: endsWith_def)
next
  case False
  have "drop (length (butlast s)) (butlast s @ [last s]) = [last s]"
    by simp
  with False have "drop (length s - 1) s = [last s]"
    by simp
  with False show ?thesis
    by (auto simp: endsWith_def Suc_le_eq)
qed

lemma strip_trailing_slash_eq:
  "strip_trailing_slash q = (if endsWith q ''/'' \<and> length q > 1 then slice_0_m1 q else q)"
  by (induction q rule: strip_trailing_slash.induct)
     (auto simp: endsWith_slash slice_0_m1_def)

lemma key_path_refines:
  "(let p = (if \<not> startsWith path ''/'' then CHR ''/'' # path else path);
        p = (if endsWith p ''/'' \<and> length p > 1 then slice_0_m1 p else p);
        p = (if p = ''/'' then ''/index'' else p)
    in p) = spec_key_path path"
  by (cases path) (auto simp: spec_key_path_def strip_trailing_slash_eq startsWith_def Let_def)

text \<open>
  C7. For a URL that parses, the page key is the domain, then the path with a leading
  slash ensured, one trailing slash stripped and the root path named \<open>/index\<close>
  (\<open>spec_key_path\<close>, the rule in the specification's words), then \<open>.json\<close>. The two
  examples of the specification evaluate as stated. When the URL does not parse the
  key is the hash key: domain, slash, MD5 of the URL, \<open>.json\<close>.
\<close>

theorem jsonKey_hierarchical:
  "(prs u = Some parsed \<longrightarrow>
      jsonKey prs md5 u domain = domain @ spec_key_path (pathname parsed) @ ''.json'')
   \<and> (prs u = None \<longrightarrow> jsonKey prs md5 u domain = domain @ ''/'' @ md5 u @ ''.json'')
   \<and> jsonKey parseURL md5 ''https://ex.com/a/b/'' ''ex.com'' = ''ex.com/a/b.json''
   \<and> jsonKey parseURL md5 ''https://ex.com/'' ''ex.com'' = ''ex.com/index.json''"
proof -
  have a: "prs u = Some parsed \<longrightarrow>
      jsonKey prs md5 u domain = domain @ spec_key_path (pathname parsed) @ ''.json''"
    using key_path_refines [of "pathname parsed"]
    by (simp add: jsonKey_def getHierarchicalKey_def Let_def)
  have b: "prs u = None \<longrightarrow> jsonKey prs md5 u domain = domain @ ''/'' @ md5 u @ ''.json''"
    by (simp add: jsonKey_def getHierarchicalKey_def)
  have p1: "parseURL ''https://ex.com/a/b/'' = Some \<lparr>kind = Special, scheme = ''https'', host = Some ''ex.com'', pathname = ''/a/b/'',
             query = None, fragment = None, origin = ''https://ex.com''\<rparr>"
    by code_simp
  have p2: "parseURL ''https://ex.com/'' = Some \<lparr>kind = Special, scheme = ''https'', host = Some ''ex.com'', pathname = ''/'',
             query = None, fragment = None, origin = ''https://ex.com''\<rparr>"
    by code_simp
  have c: "jsonKey parseURL md5 ''https://ex.com/a/b/'' ''ex.com'' = ''ex.com/a/b.json''"
    by (simp add: jsonKey_def getHierarchicalKey_def p1 startsWith_def endsWith_def slice_0_m1_def)
  have d: "jsonKey parseURL md5 ''https://ex.com/'' ''ex.com'' = ''ex.com/index.json''"
    by (simp add: jsonKey_def getHierarchicalKey_def p2 startsWith_def endsWith_def slice_0_m1_def)
  from a b c d show ?thesis by blast
qed

theorem jsonKey_hierarchical_witness:
  "parseURL ''https://ex.com/docs//'' = Some \<lparr>kind = Special, scheme = ''https'', host = Some ''ex.com'', pathname = ''/docs//'',
             query = None, fragment = None, origin = ''https://ex.com''\<rparr>
   \<and> jsonKey parseURL (\<lambda>s. ''md5:'' @ s) ''https://ex.com/docs//'' ''ex.com'' = ''ex.com/docs/.json''
   \<and> parseURL ''no url'' = None
   \<and> jsonKey parseURL (\<lambda>s. ''md5:'' @ s) ''no url'' ''ex.com'' = ''ex.com/md5:no url.json''"
proof -
  have p: "parseURL ''https://ex.com/docs//'' = Some \<lparr>kind = Special, scheme = ''https'', host = Some ''ex.com'', pathname = ''/docs//'',
             query = None, fragment = None, origin = ''https://ex.com''\<rparr>"
    by code_simp
  have n: "parseURL ''no url'' = None"
    by code_simp
  have k: "spec_key_path ''/docs//'' = ''/docs/''"
    by code_simp
  from jsonKey_hierarchical [of parseURL "''https://ex.com/docs//''" _ "\<lambda>s. ''md5:'' @ s" "''ex.com''"] p k
  have "jsonKey parseURL (\<lambda>s. ''md5:'' @ s) ''https://ex.com/docs//'' ''ex.com'' = ''ex.com/docs/.json''"
    by simp
  moreover from jsonKey_hierarchical [of parseURL "''no url''" _ "\<lambda>s. ''md5:'' @ s" "''ex.com''"] n
  have "jsonKey parseURL (\<lambda>s. ''md5:'' @ s) ''no url'' ''ex.com'' = ''ex.com/md5:no url.json''"
    by simp
  ultimately show ?thesis using p n by blast
qed

section \<open>Properties of URL normalisation\<close>

lemma normalizeUrl_parsed: "prs u = Some p \<Longrightarrow> normalizeUrl prs u = toString (normalized p)"
  by (simp add: normalizeUrl_def normalized_def Let_def)

lemma endsWith_iff: "endsWith s p \<longleftrightarrow> (\<exists>t. s = t @ p)"
proof
  assume "endsWith s p"
  then have "drop (length s - length p) s = p"
    by (simp add: endsWith_def)
  then have "s = take (length s - length p) s @ p"
    by (metis append_take_drop_id)
  then show "\<exists>t. s = t @ p" ..
next
  assume "\<exists>t. s = t @ p"
  then show "endsWith s p"
    by (auto simp: endsWith_def)
qed

lemma strip_trailing_spaces_idem:
  "strip_trailing_spaces (strip_trailing_spaces s) = strip_trailing_spaces s"
proof -
  have "dropWhile P (dropWhile P xs) = dropWhile P xs" for P :: "char \<Rightarrow> bool" and xs
    by (induction xs) simp_all
  then show ?thesis
    by (simp add: strip_trailing_spaces_def)
qed

lemma normalized_opaque:
  assumes "kind p = Opaque"
  shows "normalized (normalized p) = normalized p"
proof -
  have k: "kind (set_hash p []) = Opaque"
    using assms by (simp add: set_hash_def)
  have n: "normalized p = set_hash p []"
    using k by (simp add: normalized_def set_pathname_def Let_def)
  have "set_hash (set_hash p []) [] = set_hash p []"
    using assms by (simp add: set_hash_def strip_trailing_spaces_idem)
  then have "normalized (set_hash p []) = set_hash p []"
    using k by (simp add: normalized_def set_pathname_def Let_def)
  with n show ?thesis by simp
qed

lemma normalized_segments:
  assumes "kind p \<noteq> Opaque"
    and "\<not> endsWith (pathname p) ''//''
         \<or> ((kind p = Special \<or> host p = None) \<and> pathname p = ''//'')"
  shows "normalized (normalized p) = normalized p"
proof (cases "endsWith (pathname p) ''/''")
  case False
  with assms(1) show ?thesis
    by (simp add: normalized_def set_hash_def Let_def)
next
  case True
  then obtain t where t: "pathname p = t @ ''/''"
    by (auto simp: endsWith_iff)
  show ?thesis
  proof (cases "t = []")
    case True
    show ?thesis
    proof (cases "kind p = Special \<or> host p = None")
      case True
      with t \<open>t = []\<close> assms(1) show ?thesis
        by (simp add: normalized_def set_hash_def set_pathname_def slice_0_m1_def Let_def
                      endsWith_def)
    next
      case False
      with t \<open>t = []\<close> assms(1) show ?thesis
        by (simp add: normalized_def set_hash_def set_pathname_def slice_0_m1_def Let_def
                      endsWith_def)
    qed
  next
    case nonempty: False
    show ?thesis
    proof (cases "t = ''/''")
      case True
      with t assms(2) have "kind p = Special \<or> host p = None"
        by (simp add: endsWith_def)
      with t True assms(1) show ?thesis
        by (simp add: normalized_def set_hash_def set_pathname_def slice_0_m1_def Let_def
                      endsWith_def startsWith_def)
    next
      case nroot: False
      from assms(2) t nroot have "\<not> endsWith t ''/''"
        by (auto simp: endsWith_iff)
      with nonempty have l: "last t \<noteq> CHR ''/''"
        by (simp add: endsWith_slash)
      from nonempty l have "\<not> endsWith (CHR ''/'' # t) ''/''"
        by (simp add: endsWith_slash)
      with t nonempty l assms(1) show ?thesis
        by (simp add: normalized_def set_hash_def set_pathname_def slice_0_m1_def Let_def
                      endsWith_slash)
    qed
  qed
qed

lemma normalized_idem:
  assumes "kind p = Opaque \<or> \<not> endsWith (pathname p) ''//''
           \<or> ((kind p = Special \<or> host p = None) \<and> pathname p = ''//'')"
  shows "normalized (normalized p) = normalized p"
proof (cases "kind p = Opaque")
  case True
  then show ?thesis by (rule normalized_opaque)
next
  case False
  with assms show ?thesis by (intro normalized_segments) simp_all
qed

text \<open>
  C6, as stated, fails: \<open>https://ex.com/a//\<close> parses, its path \<open>/a//\<close> loses one
  slash, and normalising the result \<open>https://ex.com/a/\<close> again removes the second one.
  With a scheme that is not special the path \<open>//\<close> alone fails too: \<open>foo://host//\<close>
  gives \<open>foo://host/\<close>, and that gives \<open>foo://host\<close>.
\<close>

theorem normalizeUrl_idempotent_counterexample:
  "parseURL ''https://ex.com/a//'' \<noteq> None
   \<and> normalizeUrl parseURL ''https://ex.com/a//'' = ''https://ex.com/a/''
   \<and> normalizeUrl parseURL (normalizeUrl parseURL ''https://ex.com/a//'') = ''https://ex.com/a''
   \<and> normalizeUrl parseURL (normalizeUrl parseURL ''https://ex.com/a//'')
       \<noteq> normalizeUrl parseURL ''https://ex.com/a//''
   \<and> parseURL ''foo://host//'' \<noteq> None
   \<and> normalizeUrl parseURL ''foo://host//'' = ''foo://host/''
   \<and> normalizeUrl parseURL (normalizeUrl parseURL ''foo://host//'') = ''foo://host''"
  by code_simp

text \<open>
  C6, amended. Normalisation is idempotent on every URL that parses, whose
  normalised form the parser reads back from its serialisation as it is (the
  library's round trip, the second hypothesis), and whose path does not end in two
  slashes. Two kinds of URL need no condition on the path: one with an opaque path,
  which the \<open>pathname\<close> setter leaves alone, and one whose path is \<open>//\<close> and that has a
  special scheme or no host, where both passes give the root path.
\<close>

theorem normalizeUrl_idempotent_unless_double_slash:
  assumes "prs u = Some p"
    and "prs (toString (normalized p)) = Some (normalized p)"
    and "kind p = Opaque \<or> \<not> endsWith (pathname p) ''//''
         \<or> ((kind p = Special \<or> host p = None) \<and> pathname p = ''//'')"
  shows "normalizeUrl prs (normalizeUrl prs u) = normalizeUrl prs u"
  using assms by (simp add: normalizeUrl_parsed normalized_idem)

theorem normalizeUrl_idempotent_unless_double_slash_witness:
  "parseURL ''https://ex.com/a/b/?x=1#top''
     = Some \<lparr>kind = Special, scheme = ''https'', host = Some ''ex.com'', pathname = ''/a/b/'',
             query = Some ''x=1'', fragment = Some ''top'', origin = ''https://ex.com''\<rparr>
   \<and> normalizeUrl parseURL ''https://ex.com/a/b/?x=1#top'' = ''https://ex.com/a/b?x=1''
   \<and> normalizeUrl parseURL (normalizeUrl parseURL ''https://ex.com/a/b/?x=1#top'')
       = normalizeUrl parseURL ''https://ex.com/a/b/?x=1#top''
   \<and> parseURL ''foo://host/''
     = Some \<lparr>kind = Segments, scheme = ''foo'', host = Some ''host'', pathname = ''/'',
             query = None, fragment = None, origin = ''null''\<rparr>
   \<and> normalizeUrl parseURL ''foo://host/'' = ''foo://host''
   \<and> normalizeUrl parseURL (normalizeUrl parseURL ''foo://host/'')
       = normalizeUrl parseURL ''foo://host/''
   \<and> normalizeUrl parseURL ''https://ex.com//'' = ''https://ex.com/''
   \<and> normalizeUrl parseURL (normalizeUrl parseURL ''https://ex.com//'')
       = normalizeUrl parseURL ''https://ex.com//''"
proof -
  let ?p = "\<lparr>kind = Special, scheme = ''https'', host = Some ''ex.com'', pathname = ''/a/b/'',
             query = Some ''x=1'', fragment = Some ''top'', origin = ''https://ex.com''\<rparr>"
  let ?f = "\<lparr>kind = Segments, scheme = ''foo'', host = Some ''host'', pathname = ''/'',
             query = None, fragment = None, origin = ''null''\<rparr>"
  let ?d = "\<lparr>kind = Special, scheme = ''https'', host = Some ''ex.com'', pathname = ''//'',
             query = None, fragment = None, origin = ''https://ex.com''\<rparr>"
  have p: "parseURL ''https://ex.com/a/b/?x=1#top'' = Some ?p"
    and f: "parseURL ''foo://host/'' = Some ?f"
    and d: "parseURL ''https://ex.com//'' = Some ?d"
    by code_simp+
  have rp: "parseURL (toString (normalized ?p)) = Some (normalized ?p)"
    and rf: "parseURL (toString (normalized ?f)) = Some (normalized ?f)"
    and rd: "parseURL (toString (normalized ?d)) = Some (normalized ?d)"
    by code_simp+
  have cp: "kind ?p = Opaque \<or> \<not> endsWith (pathname ?p) ''//''
            \<or> ((kind ?p = Special \<or> host ?p = None) \<and> pathname ?p = ''//'')"
    and cf: "kind ?f = Opaque \<or> \<not> endsWith (pathname ?f) ''//''
            \<or> ((kind ?f = Special \<or> host ?f = None) \<and> pathname ?f = ''//'')"
    and cd: "kind ?d = Opaque \<or> \<not> endsWith (pathname ?d) ''//''
            \<or> ((kind ?d = Special \<or> host ?d = None) \<and> pathname ?d = ''//'')"
    by code_simp+
  have n: "normalizeUrl parseURL ''https://ex.com/a/b/?x=1#top'' = ''https://ex.com/a/b?x=1''"
    "normalizeUrl parseURL ''foo://host/'' = ''foo://host''"
    "normalizeUrl parseURL ''https://ex.com//'' = ''https://ex.com/''"
    by code_simp+
  from normalizeUrl_idempotent_unless_double_slash [OF p rp cp]
    normalizeUrl_idempotent_unless_double_slash [OF f rf cf]
    normalizeUrl_idempotent_unless_double_slash [OF d rd cd] p f n show ?thesis
    by blast
qed

section \<open>Properties of the crawl loop\<close>

text \<open>
  What every iteration preserves holds when the loop ends, and there the queue is
  empty or the page count is no longer below the limit (\<open>crawl_loop_partial\<close>). The
  loop ends when every iteration descends in a well-founded order
  (\<open>crawl_loop_total\<close>), which it does whenever the limit is not \<open>Infinity\<close>: an
  iteration either counts one more page or leaves the count and shortens the queue.
\<close>

lemma crawled_append: "crawled (xs @ ys) = crawled xs @ crawled ys"
  by (induction xs rule: crawled.induct) simp_all

lemma consider_link_pagesProcessed:
  "pagesProcessed (consider_link E rq d link s) = pagesProcessed s"
  by (simp add: consider_link_def push_def visit_def Let_def)

lemma fold_consider_link_pagesProcessed:
  "pagesProcessed (fold (consider_link E rq d) ls s) = pagesProcessed s"
  by (induction ls arbitrary: s) (simp_all add: consider_link_pagesProcessed)

lemma rebase_frame:
  "rebase E rq page s = Some s1 \<Longrightarrow>
     pagesProcessed s1 = pagesProcessed s \<and> queue s1 = queue s \<and> results s1 = results s
     \<and> visitedUrls s1 = visitedUrls s \<and> pushed s1 = pushed s \<and> opened s1 = opened s"
  by (auto simp: rebase_def split: option.splits if_splits)

lemma try_page_progress:
  "pagesProcessed (try_page E rq current s) = Suc (pagesProcessed s)
   \<or> (pagesProcessed (try_page E rq current s) = pagesProcessed s
      \<and> queue (try_page E rq current s) = queue s)"
  by (auto simp: try_page_def failed_def counted_def Let_def fold_consider_link_pagesProcessed
           dest!: rebase_frame split: option.splits)

lemma step_progress:
  "queue s \<noteq> [] \<Longrightarrow>
     pagesProcessed (step E rq s) = Suc (pagesProcessed s)
     \<or> (pagesProcessed (step E rq s) = pagesProcessed s
        \<and> length (queue (step E rq s)) < length (queue s))"
proof -
  assume "queue s \<noteq> []"
  then obtain current rest where q: "queue s = current # rest"
    by (cases "queue s") auto
  let ?s1 = "s\<lparr>queue := rest, console := console s @ [Crawling (fst current) (snd current)]\<rparr>"
  show ?thesis
  proof (cases "case depth rq of None \<Rightarrow> False | Some m \<Rightarrow> nat_gt (snd current) m")
    case True
    then show ?thesis by (simp add: step_def q)
  next
    case False
    then have "step E rq s = try_page E rq current ?s1"
      by (simp add: step_def q)
    then show ?thesis
      using try_page_progress [of E rq current ?s1] by (auto simp: q)
  qed
qed

lemma crawl_loop_partial_aux:
  "crawl_loop E rq cap s = Some t \<Longrightarrow>
     (\<forall>u. I u \<and> queue u \<noteq> [] \<and> nat_lt (pagesProcessed u) cap \<longrightarrow> I (step E rq u)) \<longrightarrow>
     I s \<longrightarrow> I t \<and> (queue t = [] \<or> \<not> nat_lt (pagesProcessed t) cap)"
proof (induction rule: crawl_loop.raw_induct [rotated 1, consumes 1])
  case (1 loop E rq cap s t)
  show ?case
  proof (intro impI)
    assume pres: "\<forall>u. I u \<and> queue u \<noteq> [] \<and> nat_lt (pagesProcessed u) cap \<longrightarrow> I (step E rq u)"
      and s: "I s"
    show "I t \<and> (queue t = [] \<or> \<not> nat_lt (pagesProcessed t) cap)"
    proof (cases "0 < length (queue s) \<and> nat_lt (pagesProcessed s) cap")
      case True
      with 1(2) have run: "loop E rq cap (step E rq s) = Some t"
        by simp
      from pres s True have "I (step E rq s)"
        by simp
      with 1(1) [OF run] pres show ?thesis
        by simp
    next
      case False
      with 1(2) have "t = s" by (auto split: if_splits)
      with False s show ?thesis by auto
    qed
  qed
qed

lemma crawl_loop_partial:
  assumes "crawl_loop E rq cap s = Some t"
    and "I s"
    and "\<And>u. I u \<Longrightarrow> queue u \<noteq> [] \<Longrightarrow> nat_lt (pagesProcessed u) cap \<Longrightarrow> I (step E rq u)"
  shows "I t" and "queue t = [] \<or> \<not> nat_lt (pagesProcessed t) cap"
proof -
  from assms(3) have "\<forall>u. I u \<and> queue u \<noteq> [] \<and> nat_lt (pagesProcessed u) cap \<longrightarrow> I (step E rq u)"
    by simp
  with crawl_loop_partial_aux [OF assms(1), of I] assms(2)
  show "I t" and "queue t = [] \<or> \<not> nat_lt (pagesProcessed t) cap"
    by simp_all
qed

lemma crawl_loop_total:
  assumes "wf r"
    and "I s"
    and "\<And>u. I u \<Longrightarrow> queue u \<noteq> [] \<Longrightarrow> nat_lt (pagesProcessed u) cap \<Longrightarrow>
           I (step E rq u) \<and> (step E rq u, u) \<in> r"
  shows "\<exists>t. crawl_loop E rq cap s = Some t \<and> I t
           \<and> (queue t = [] \<or> \<not> nat_lt (pagesProcessed t) cap)"
  using assms(1,2)
proof (induction s rule: wf_induct_rule)
  case (less s)
  show ?case
  proof (cases "0 < length (queue s) \<and> nat_lt (pagesProcessed s) cap")
    case True
    with assms(3) [OF less.prems] have "I (step E rq s)" and "(step E rq s, s) \<in> r"
      by simp_all
    from less.IH [OF this(2,1)] obtain t where "crawl_loop E rq cap (step E rq s) = Some t"
      and "I t" and "queue t = [] \<or> \<not> nat_lt (pagesProcessed t) cap"
      by blast
    moreover from True have "crawl_loop E rq cap s = crawl_loop E rq cap (step E rq s)"
      by (subst crawl_loop.simps) simp
    ultimately show ?thesis by simp
  next
    case False
    then have "crawl_loop E rq cap s = Some s"
      by (subst crawl_loop.simps) auto
    with False less.prems show ?thesis by auto
  qed
qed

lemma nat_lt_below: "cap \<noteq> Infinity \<Longrightarrow> nat_lt n cap \<longleftrightarrow> n < naturals_below cap"
  by (cases cap) (simp_all add: zless_nat_eq_int_zless less_ceiling_iff)

lemma step_decreases:
  assumes "cap \<noteq> Infinity" and "queue u \<noteq> []" and "nat_lt (pagesProcessed u) cap"
  shows "(step E rq u, u) \<in> inv_image (less_than <*lex*> less_than)
              (\<lambda>s. (naturals_below cap - pagesProcessed s, length (queue s)))"
proof -
  from assms(1,3) have "pagesProcessed u < naturals_below cap"
    by (simp add: nat_lt_below)
  with step_progress [OF assms(2), of E rq] show ?thesis
    by auto
qed

lemma crawl_loop_returns:
  assumes "cap \<noteq> Infinity"
  shows "\<exists>t. crawl_loop E rq cap s = Some t"
proof -
  let ?r = "inv_image (less_than <*lex*> less_than)
              (\<lambda>s. (naturals_below cap - pagesProcessed s, length (queue s)))"
  have w: "wf ?r"
    by (intro wf_inv_image wf_lex_prod wf_less_than)
  have "\<exists>t. crawl_loop E rq cap s = Some t \<and> True
           \<and> (queue t = [] \<or> \<not> nat_lt (pagesProcessed t) cap)"
  proof (rule crawl_loop_total [OF w, where I = "\<lambda>s. True"])
    show True ..
  next
    fix u :: crawl_state
    assume "queue u \<noteq> []" "nat_lt (pagesProcessed u) cap"
    from step_decreases [OF assms this] show "True \<and> (step E rq u, u) \<in> ?r"
      by simp
  qed
  then show ?thesis by blast
qed

text \<open>
  The ways through the \<open>try\<close> block, and through one iteration, as case rules.
\<close>

lemma extractContent_url: "extractContent rq page u = Some r \<Longrightarrow> page_url r = u"
  by (auto simp: extractContent_def split: option.splits)


lemma try_page_cases
  [consumes 0, case_names goto_fails rebase_fails extract_fails no_links links_fail links]:
  assumes "goto E (opened s) (fst c) = None \<Longrightarrow>
             try_page E rq c s = failed (fst c) (s\<lparr>opened := opened s + 1\<rparr>) \<Longrightarrow> P"
    and "\<And>page. goto E (opened s) (fst c) = Some page \<Longrightarrow>
           rebase E rq page (s\<lparr>opened := opened s + 1\<rparr>) = None \<Longrightarrow>
           try_page E rq c s = failed (fst c) (s\<lparr>opened := opened s + 1\<rparr>) \<Longrightarrow> P"
    and "\<And>page s1. goto E (opened s) (fst c) = Some page \<Longrightarrow>
           rebase E rq page (s\<lparr>opened := opened s + 1\<rparr>) = Some s1 \<Longrightarrow>
           extractContent rq page (fst c) = None \<Longrightarrow>
           try_page E rq c s = failed (fst c) s1 \<Longrightarrow> P"
    and "\<And>page s1 r. goto E (opened s) (fst c) = Some page \<Longrightarrow>
           rebase E rq page (s\<lparr>opened := opened s + 1\<rparr>) = Some s1 \<Longrightarrow>
           extractContent rq page (fst c) = Some r \<Longrightarrow>
           \<not> (includeUrls rq = None
              \<and> (case depth rq of None \<Rightarrow> True | Some m \<Rightarrow> nat_lt (snd c) m)) \<Longrightarrow>
           try_page E rq c s = counted r s1 \<Longrightarrow> P"
    and "\<And>page s1 r. goto E (opened s) (fst c) = Some page \<Longrightarrow>
           rebase E rq page (s\<lparr>opened := opened s + 1\<rparr>) = Some s1 \<Longrightarrow>
           extractContent rq page (fst c) = Some r \<Longrightarrow>
           includeUrls rq = None \<Longrightarrow>
           try_page E rq c s = failed (fst c) (counted r s1) \<Longrightarrow> P"
    and "\<And>page s1 r ls. goto E (opened s) (fst c) = Some page \<Longrightarrow>
           rebase E rq page (s\<lparr>opened := opened s + 1\<rparr>) = Some s1 \<Longrightarrow>
           extractContent rq page (fst c) = Some r \<Longrightarrow>
           includeUrls rq = None \<Longrightarrow>
           try_page E rq c s = fold (consider_link E rq (snd c)) ls (counted r s1) \<Longrightarrow> P"
  shows P
proof (cases "goto E (opened s) (fst c)")
  case None
  have "try_page E rq c s = failed (fst c) (s\<lparr>opened := opened s + 1\<rparr>)"
    by (simp add: try_page_def None)
  then show ?thesis by (rule assms(1) [OF None])
next
  case (Some page)
  note page = this
  show ?thesis
  proof (cases "rebase E rq page (s\<lparr>opened := opened s + 1\<rparr>)")
    case None
    have "try_page E rq c s = failed (fst c) (s\<lparr>opened := opened s + 1\<rparr>)"
      using None by (simp add: try_page_def page)
    then show ?thesis by (rule assms(2) [OF page None])
  next
    case (Some s1)
    note s1 = this
    show ?thesis
    proof (cases "extractContent rq page (fst c)")
      case None
      have "try_page E rq c s = failed (fst c) s1"
        using s1 by (simp add: try_page_def page None)
      then show ?thesis by (rule assms(3) [OF page s1 None])
    next
      case (Some r)
      note r = this
      show ?thesis
      proof (cases "includeUrls rq = None
                    \<and> (case depth rq of None \<Rightarrow> True | Some m \<Rightarrow> nat_lt (snd c) m)")
        case False
        have "try_page E rq c s = counted r s1"
          using s1 False unfolding try_page_def Let_def
          by (auto simp: page r)
        then show ?thesis by (rule assms(4) [OF page s1 r False])
      next
        case True
        then have inc: "includeUrls rq = None" by simp
        show ?thesis
        proof (cases "extractLinks page")
          case None
          have "try_page E rq c s = failed (fst c) (counted r s1)"
            using s1 True unfolding try_page_def Let_def
            by (simp add: page r None)
          then show ?thesis by (rule assms(5) [OF page s1 r inc])
        next
          case (Some ls)
          have "try_page E rq c s = fold (consider_link E rq (snd c)) ls (counted r s1)"
            using s1 True unfolding try_page_def Let_def
            by (simp add: page r Some)
          then show ?thesis by (rule assms(6) [OF page s1 r inc])
        qed
      qed
    qed
  qed
qed


lemma step_cases [consumes 1, case_names skipped tried]:
  assumes "queue s \<noteq> []"
    and "\<And>c rest m. queue s = c # rest \<Longrightarrow> depth rq = Some m \<Longrightarrow> nat_gt (snd c) m \<Longrightarrow>
           step E rq s = s\<lparr>queue := rest\<rparr> \<Longrightarrow> P"
    and "\<And>c rest. queue s = c # rest \<Longrightarrow>
           (case depth rq of None \<Rightarrow> True | Some m \<Rightarrow> \<not> nat_gt (snd c) m) \<Longrightarrow>
           step E rq s = try_page E rq c
             (s\<lparr>queue := rest, console := console s @ [Crawling (fst c) (snd c)]\<rparr>) \<Longrightarrow> P"
  shows P
proof -
  from assms(1) obtain c rest where q: "queue s = c # rest"
    by (cases "queue s") auto
  show ?thesis
  proof (cases "case depth rq of None \<Rightarrow> False | Some m \<Rightarrow> nat_gt (snd c) m")
    case True
    then obtain m where m: "depth rq = Some m" "nat_gt (snd c) m"
      by (auto split: option.splits)
    then have "step E rq s = s\<lparr>queue := rest\<rparr>"
      by (simp add: step_def q)
    then show ?thesis by (rule assms(2) [OF q m])
  next
    case False
    then have ok: "case depth rq of None \<Rightarrow> True | Some m \<Rightarrow> \<not> nat_gt (snd c) m"
      by (auto split: option.splits)
    from False have "step E rq s = try_page E rq c
             (s\<lparr>queue := rest, console := console s @ [Crawling (fst c) (snd c)]\<rparr>)"
      by (simp add: step_def q)
    then show ?thesis by (rule assms(3) [OF q ok])
  qed
qed

lemma consider_link_frame:
  "results (consider_link E rq d link s) = results s"
  "baseUrl (consider_link E rq d link s) = baseUrl s"
  "console (consider_link E rq d link s) = console s"
  "opened (consider_link E rq d link s) = opened s"
  by (simp_all add: consider_link_def push_def visit_def Let_def)

lemma fold_consider_link_frame:
  "results (fold (consider_link E rq d) ls s) = results s"
  "baseUrl (fold (consider_link E rq d) ls s) = baseUrl s"
  "console (fold (consider_link E rq d) ls s) = console s"
  "opened (fold (consider_link E rq d) ls s) = opened s"
  by (induction ls arbitrary: s) (simp_all add: consider_link_frame)

lemma rebase_console:
  "rebase E rq page s = Some s1 \<Longrightarrow> crawled (console s1) = crawled (console s)"
  by (auto simp: rebase_def crawled_append split: option.splits if_splits)

lemma try_page_crawled:
  "crawled (console (try_page E rq c s)) = crawled (console s)"
  by (cases rule: try_page_cases [of E s c rq])
     (auto simp: failed_def counted_def crawled_append fold_consider_link_frame
           dest!: rebase_console)

lemma try_page_results:
  "(results (try_page E rq c s) = results s
      \<and> pagesProcessed (try_page E rq c s) = pagesProcessed s)
   \<or> (\<exists>r. results (try_page E rq c s) = results s @ [r] \<and> page_url r = fst c
          \<and> pagesProcessed (try_page E rq c s) = Suc (pagesProcessed s))"
  by (cases rule: try_page_cases [of E s c rq])
     (auto simp: failed_def counted_def fold_consider_link_frame
                 fold_consider_link_pagesProcessed
           dest!: rebase_frame extractContent_url)

lemma within_limits_step:
  assumes "within_limits rq cap s" and "queue s \<noteq> []" and "nat_lt (pagesProcessed s) cap"
  shows "within_limits rq cap (step E rq s)"
  using assms(2)
proof (cases rule: step_cases [where E = E and rq = rq])
  case (skipped c rest m)
  with assms(1) show ?thesis
    by (simp add: within_limits_def)
next
  case (tried c rest)
  let ?s1 = "s\<lparr>queue := rest, console := console s @ [Crawling (fst c) (snd c)]\<rparr>"
  have cr: "crawled (console (step E rq s)) = crawled (console s) @ [c]"
    by (simp add: tried(3) try_page_crawled crawled_append)
  from try_page_results [of E rq c ?s1]
  have res: "(results (step E rq s) = results s
               \<and> pagesProcessed (step E rq s) = pagesProcessed s)
             \<or> (\<exists>r. results (step E rq s) = results s @ [r] \<and> page_url r = fst c
                   \<and> pagesProcessed (step E rq s) = Suc (pagesProcessed s))"
    by (simp add: tried(3))
  from assms(1) have a: "length (results s) = pagesProcessed s"
    and b: "\<And>d. depth rq = Some d \<Longrightarrow> \<forall>e\<in>set (crawled (console s)). \<not> nat_gt (snd e) d"
    and d: "\<forall>r\<in>set (results s). page_url r \<in> fst ` set (crawled (console s))"
    by (auto simp: within_limits_def)
  have 1: "length (results (step E rq s)) = pagesProcessed (step E rq s)"
    using res a by auto
  have 2: "cap = Infinity \<or> pagesProcessed (step E rq s) \<le> naturals_below cap"
  proof (cases "cap = Infinity")
    case False
    with assms(3) have "pagesProcessed s < naturals_below cap"
      by (simp add: nat_lt_below)
    with res show ?thesis by auto
  qed simp
  have 3: "\<forall>d. depth rq = Some d \<longrightarrow>
             (\<forall>e\<in>set (crawled (console (step E rq s))). \<not> nat_gt (snd e) d)"
    using b tried(2) by (auto simp: cr)
  have 4: "\<forall>r\<in>set (results (step E rq s)).
             page_url r \<in> fst ` set (crawled (console (step E rq s)))"
    using res d by (auto simp: cr)
  from 1 2 3 4 show ?thesis
    unfolding within_limits_def by blast
qed

lemma seed_one_frame:
  "results (seed_one E u s) = results s"
  "pagesProcessed (seed_one E u s) = pagesProcessed s"
  "console (seed_one E u s) = console s"
  "baseUrl (seed_one E u s) = baseUrl s"
  "opened (seed_one E u s) = opened s"
  by (simp_all add: seed_one_def push_def visit_def)

lemma fold_seed_one_frame:
  "results (fold (seed_one E) us s) = results s"
  "pagesProcessed (fold (seed_one E) us s) = pagesProcessed s"
  "console (fold (seed_one E) us s) = console s"
  "baseUrl (fold (seed_one E) us s) = baseUrl s"
  "opened (fold (seed_one E) us s) = opened s"
  by (induction us arbitrary: s) (simp_all add: seed_one_frame)

lemma seed_frame:
  "results (seed E rq s) = results s"
  "pagesProcessed (seed E rq s) = pagesProcessed s"
  "console (seed E rq s) = console s"
  "baseUrl (seed E rq s) = baseUrl s"
  "opened (seed E rq s) = opened s"
  by (simp_all add: seed_def seed_one_frame fold_seed_one_frame split: option.splits)

lemma newCrawler_fresh:
  "newCrawler E rq = Some s0 \<Longrightarrow>
     queue s0 = [] \<and> visitedUrls s0 = {} \<and> results s0 = [] \<and> pagesProcessed s0 = 0
     \<and> opened s0 = 0 \<and> console s0 = [] \<and> pushed s0 = []"
  by (auto simp: newCrawler_def split: option.splits)

lemma not_gt_le: "d \<noteq> NaN \<Longrightarrow> \<not> nat_gt n d \<Longrightarrow> nat_le n d"
  by (cases d) simp_all

lemma naturals_below_of_nat: "naturals_below (Num (of_nat n)) = n"
  by simp

text \<open>
  C3, as stated, fails: \<open>maxPages\<close> and \<open>depth\<close> are numbers that nothing checks.
  With \<open>maxPages = -3\<close> the run completes with no result, and 0 is not at most -3;
  with \<open>maxPages = 2.5\<close> it returns three results; with \<open>depth = NaN\<close> the seed is
  processed at depth 0, and 0 is not at most \<open>NaN\<close>.
\<close>

theorem crawl_limits_counterexample:
  "newCrawler site_test (limits_request (Num 1) (Num (- 3))) = Some (fresh ''https://site.test'')
   \<and> map_option (\<lambda>final. length (results final))
        (crawl site_test (limits_request (Num 1) (Num (- 3))) (fresh ''https://site.test''))
       = Some 0
   \<and> \<not> nat_le 0 (Num (- 3))
   \<and> map_option (\<lambda>final. length (results final))
        (crawl site_test (limits_request (Num 1) (Num (5 / 2))) (fresh ''https://site.test''))
       = Some 3
   \<and> \<not> nat_le 3 (Num (5 / 2))
   \<and> map_option (\<lambda>final. crawled (console final))
        (crawl site_test (limits_request NaN (Num 3)) (fresh ''https://site.test''))
       = Some [(''https://site.test/'', 0)]
   \<and> \<not> nat_le 0 NaN"
  by code_simp

text \<open>
  C3, amended. A run of a fresh crawler ends unless \<open>maxPages\<close> is \<open>Infinity\<close>. When
  it ends, the results number at most the naturals below \<open>maxPages\<close> (50 when the
  request gives none): at most \<open>maxPages\<close> when that is a natural number, none when
  it is negative or \<open>NaN\<close>. When the request gives a depth other than \<open>NaN\<close>, every
  page the loop took up (its \<open>Crawling\<close> line) has a depth at most that depth; every
  result is such a page. An entry deeper than the limit is only removed from the
  queue: nothing is rendered, nothing is counted.
\<close>

theorem crawl_within_limits:
  assumes "newCrawler E rq = Some s0"
  shows "((case maxPages rq of None \<Rightarrow> Num 50 | Some m \<Rightarrow> m) \<noteq> Infinity \<longrightarrow>
            (\<exists>final. crawl E rq s0 = Some final))
    \<and> (\<forall>final. crawl E rq s0 = Some final \<longrightarrow>
          ((case maxPages rq of None \<Rightarrow> Num 50 | Some m \<Rightarrow> m) \<noteq> Infinity \<longrightarrow>
             length (results final)
               \<le> naturals_below (case maxPages rq of None \<Rightarrow> Num 50 | Some m \<Rightarrow> m))
          \<and> (\<forall>n. (case maxPages rq of None \<Rightarrow> Num 50 | Some m \<Rightarrow> m) = Num (of_nat n) \<longrightarrow>
                length (results final) \<le> n)
          \<and> (\<forall>d. depth rq = Some d \<and> d \<noteq> NaN \<longrightarrow>
                (\<forall>e\<in>set (crawled (console final)). nat_le (snd e) d))
          \<and> (\<forall>r\<in>set (results final). page_url r \<in> fst ` set (crawled (console final))))
    \<and> (\<forall>s c rest d. queue s = c # rest \<and> depth rq = Some d \<and> nat_gt (snd c) d \<longrightarrow>
          step E rq s = s\<lparr>queue := rest\<rparr>
          \<and> results (step E rq s) = results s
          \<and> pagesProcessed (step E rq s) = pagesProcessed s
          \<and> console (step E rq s) = console s)"
proof -
  let ?cap = "case maxPages rq of None \<Rightarrow> Num 50 | Some m \<Rightarrow> m"
  have ends: "?cap \<noteq> Infinity \<longrightarrow> (\<exists>final. crawl E rq s0 = Some final)"
    unfolding crawl_def by (auto intro: crawl_loop_returns)
  have lim: "(?cap \<noteq> Infinity \<longrightarrow> length (results final) \<le> naturals_below ?cap)
          \<and> (\<forall>n. ?cap = Num (of_nat n) \<longrightarrow> length (results final) \<le> n)
          \<and> (\<forall>d. depth rq = Some d \<and> d \<noteq> NaN \<longrightarrow>
                (\<forall>e\<in>set (crawled (console final)). nat_le (snd e) d))
          \<and> (\<forall>r\<in>set (results final). page_url r \<in> fst ` set (crawled (console final)))"
    if run: "crawl E rq s0 = Some final" for final
  proof -
    from run have loop: "crawl_loop E rq ?cap (seed E rq s0) = Some final"
      by (simp add: crawl_def)
    from newCrawler_fresh [OF assms] have "within_limits rq ?cap (seed E rq s0)"
      by (simp add: within_limits_def seed_frame)
    with loop have w: "within_limits rq ?cap final"
      by (rule crawl_loop_partial(1)) (rule within_limits_step)
    then have l: "length (results final) = pagesProcessed final"
      and c: "?cap = Infinity \<or> pagesProcessed final \<le> naturals_below ?cap"
      and d: "\<And>d. depth rq = Some d \<Longrightarrow> \<forall>e\<in>set (crawled (console final)). \<not> nat_gt (snd e) d"
      and r: "\<forall>r\<in>set (results final). page_url r \<in> fst ` set (crawled (console final))"
      by (auto simp: within_limits_def)
    from l c have 1: "?cap \<noteq> Infinity \<longrightarrow> length (results final) \<le> naturals_below ?cap"
      by auto
    have 2: "\<forall>n. ?cap = Num (of_nat n) \<longrightarrow> length (results final) \<le> n"
    proof (intro allI impI)
      fix n assume n: "?cap = Num (of_nat n)"
      with 1 have "length (results final) \<le> naturals_below (Num (of_nat n))"
        by simp
      then show "length (results final) \<le> n"
        by (simp only: naturals_below_of_nat)
    qed
    have 3: "\<forall>d. depth rq = Some d \<and> d \<noteq> NaN \<longrightarrow>
                (\<forall>e\<in>set (crawled (console final)). nat_le (snd e) d)"
      using d not_gt_le by blast
    from 1 2 3 r show ?thesis by blast
  qed
  have skip: "\<forall>s c rest d. queue s = c # rest \<and> depth rq = Some d \<and> nat_gt (snd c) d \<longrightarrow>
          step E rq s = s\<lparr>queue := rest\<rparr>
          \<and> results (step E rq s) = results s
          \<and> pagesProcessed (step E rq s) = pagesProcessed s
          \<and> console (step E rq s) = console s"
    by (simp add: step_def)
  from ends lim skip show ?thesis
    by blast
qed

theorem crawl_within_limits_witness:
  "newCrawler site_test site_request = Some (fresh ''https://site.test'')
   \<and> maxPages site_request = Some (Num 3) \<and> depth site_request = Some (Num 1)
   \<and> (\<exists>final. crawl site_test site_request (fresh ''https://site.test'') = Some final
         \<and> map page_url (results final)
             = [''https://site.test/'', ''https://site.test/a'', ''https://site.test/b'']
         \<and> length (results final) \<le> 3
         \<and> crawled (console final)
             = [(''https://site.test/'', 0), (''https://site.test/a'', 1),
                (''https://site.test/b'', 1)]
         \<and> list_all (\<lambda>e. nat_le (snd e) (Num 1)) (crawled (console final))
         \<and> map fst (pushed final)
             = [''https://site.test/'', ''https://site.test/a'', ''https://site.test/b'',
                ''https://site.test/c'', ''https://site.test/d'', ''https://site.test/e''])
   \<and> step site_test site_request
         ((fresh ''https://site.test'')\<lparr>queue := [(''https://site.test/deep'', 2)]\<rparr>)
       = (fresh ''https://site.test'')\<lparr>queue := []\<rparr>"
proof -
  let ?deep = "(fresh ''https://site.test'')\<lparr>queue := [(''https://site.test/deep'', 2)]\<rparr>"
  let ?run = "crawl site_test site_request (fresh ''https://site.test'')"
  have n: "newCrawler site_test site_request = Some (fresh ''https://site.test'')"
    by code_simp
  have m: "maxPages site_request = Some (Num 3)" and d: "depth site_request = Some (Num 1)"
    by (simp_all add: site_request_def)
  have m': "(case maxPages site_request of None \<Rightarrow> Num 50 | Some m \<Rightarrow> m) = Num (of_nat 3)"
    and fin: "(case maxPages site_request of None \<Rightarrow> Num 50 | Some m \<Rightarrow> m) \<noteq> Infinity"
    by (simp_all add: m)
  note lim = crawl_within_limits [OF n]
  from lim [THEN conjunct1, rule_format, OF fin] obtain final where run: "?run = Some final" ..
  note at_end = lim [THEN conjunct2, THEN conjunct1, rule_format, OF run]
  have r: "map_option (\<lambda>t. map page_url (results t)) ?run
       = Some [''https://site.test/'', ''https://site.test/a'', ''https://site.test/b'']"
    by code_simp
  have c: "map_option (\<lambda>t. crawled (console t)) ?run
       = Some [(''https://site.test/'', 0), (''https://site.test/a'', 1),
               (''https://site.test/b'', 1)]"
    by code_simp
  have p: "map_option (\<lambda>t. map fst (pushed t)) ?run
       = Some [''https://site.test/'', ''https://site.test/a'', ''https://site.test/b'',
               ''https://site.test/c'', ''https://site.test/d'', ''https://site.test/e'']"
    by code_simp
  from at_end [THEN conjunct2, THEN conjunct1, rule_format, OF m']
  have l: "length (results final) \<le> 3" .
  have "depth site_request = Some (Num 1) \<and> Num 1 \<noteq> NaN"
    by (simp add: d)
  from at_end [THEN conjunct2, THEN conjunct2, THEN conjunct1, rule_format, OF this]
  have dl: "list_all (\<lambda>e. nat_le (snd e) (Num 1)) (crawled (console final))"
    by (simp add: list_all_iff)
  have "queue ?deep = (''https://site.test/deep'', 2) # [] \<and> depth site_request = Some (Num 1)
          \<and> nat_gt (snd (''https://site.test/deep'', 2 :: nat)) (Num 1)"
    by (simp add: d)
  from lim [THEN conjunct2, THEN conjunct2, rule_format, OF this]
  have s: "step site_test site_request ?deep = (fresh ''https://site.test'')\<lparr>queue := []\<rparr>"
    by simp
  from r c p run have f: "map page_url (results final)
             = [''https://site.test/'', ''https://site.test/a'', ''https://site.test/b'']"
    "crawled (console final)
             = [(''https://site.test/'', 0), (''https://site.test/a'', 1),
                (''https://site.test/b'', 1)]"
    "map fst (pushed final)
             = [''https://site.test/'', ''https://site.test/a'', ''https://site.test/b'',
                ''https://site.test/c'', ''https://site.test/d'', ''https://site.test/e'']"
    by simp_all
  show ?thesis
    by (intro conjI exI [of _ final]) (fact n m d run f l dl s)+
qed

text \<open>
  C9. When the navigation of the front entry fails (\<open>goto\<close> rejects), or the page
  cannot be read afterwards, the iteration removes the entry, adds no result, leaves
  the page count as it was and logs the failure; the loop goes on with the state
  that has the rest of the queue.
\<close>

theorem failed_render_skipped:
  assumes "queue s = (u, d) # rest"
    and "case depth rq of None \<Rightarrow> True | Some m \<Rightarrow> \<not> nat_gt d m"
    and "case goto E (opened s) u of
           None \<Rightarrow> True
         | Some page \<Rightarrow> extractContent rq page u = None"
    and "nat_lt (pagesProcessed s) cap"
  shows "queue (step E rq s) = rest
    \<and> results (step E rq s) = results s
    \<and> pagesProcessed (step E rq s) = pagesProcessed s
    \<and> last (console (step E rq s)) = Failed u
    \<and> crawl_loop E rq cap s = crawl_loop E rq cap (step E rq s)"
proof -
  let ?s1 = "s\<lparr>queue := rest, console := console s @ [Crawling u d]\<rparr>"
  from assms(2) have st: "step E rq s = try_page E rq (u, d) ?s1"
    by (auto simp: step_def assms(1) split: option.splits)
  have tp: "queue (try_page E rq (u, d) ?s1) = rest
    \<and> results (try_page E rq (u, d) ?s1) = results s
    \<and> pagesProcessed (try_page E rq (u, d) ?s1) = pagesProcessed s
    \<and> last (console (try_page E rq (u, d) ?s1)) = Failed u"
    using assms(3)
    by (cases rule: try_page_cases [of E ?s1 "(u, d)" rq])
       (auto simp: failed_def dest!: rebase_frame)
  from assms(1,4) have "crawl_loop E rq cap s = crawl_loop E rq cap (step E rq s)"
    by (subst crawl_loop.simps) simp
  with st tp show ?thesis by simp
qed

theorem failed_render_skipped_witness:
  "queue (seed flaky manifest_request (fresh ''https://site.test''))
     = [(''https://site.test/a'', 0), (''https://site.test/b/'', 0)]
   \<and> goto flaky (opened (seed flaky manifest_request (fresh ''https://site.test'')))
         ''https://site.test/a'' = None
   \<and> queue (step flaky manifest_request (seed flaky manifest_request (fresh ''https://site.test'')))
       = [(''https://site.test/b/'', 0)]
   \<and> results (step flaky manifest_request (seed flaky manifest_request (fresh ''https://site.test'')))
       = []
   \<and> pagesProcessed
         (step flaky manifest_request (seed flaky manifest_request (fresh ''https://site.test'')))
       = 0
   \<and> last (console
         (step flaky manifest_request (seed flaky manifest_request (fresh ''https://site.test''))))
       = Failed ''https://site.test/a''
   \<and> crawl_loop flaky manifest_request (Num 2)
         (seed flaky manifest_request (fresh ''https://site.test''))
       = crawl_loop flaky manifest_request (Num 2)
           (step flaky manifest_request (seed flaky manifest_request (fresh ''https://site.test'')))
   \<and> map_option (\<lambda>final. map page_url (results final))
         (crawl flaky manifest_request (fresh ''https://site.test''))
       = Some [''https://site.test/b/'']"
proof -
  let ?s = "seed flaky manifest_request (fresh ''https://site.test'')"
  have q: "queue ?s = (''https://site.test/a'', 0) # [(''https://site.test/b/'', 0)]"
    by code_simp
  have d: "case depth manifest_request of None \<Rightarrow> True | Some m \<Rightarrow> \<not> nat_gt 0 m"
    by (simp add: manifest_request_def)
  have g: "case goto flaky (opened ?s) ''https://site.test/a'' of None \<Rightarrow> True
           | Some page \<Rightarrow> extractContent manifest_request page ''https://site.test/a'' = None"
    by (simp add: flaky_def)
  have g': "goto flaky (opened ?s) ''https://site.test/a'' = None"
    by (simp add: flaky_def)
  have p: "nat_lt (pagesProcessed ?s) (Num 2)"
    by code_simp
  have r0: "results ?s = []" and p0: "pagesProcessed ?s = 0"
    by code_simp+
  have f: "map_option (\<lambda>final. map page_url (results final))
             (crawl flaky manifest_request (fresh ''https://site.test''))
       = Some [''https://site.test/b/'']"
    by code_simp
  from failed_render_skipped [OF q d g p] r0 p0 q g' f show ?thesis
    by simp
qed

text \<open>The visited set only grows; pushes keep the pushed entries free of duplicates.\<close>

lemma consider_link_visited: "visitedUrls s \<subseteq> visitedUrls (consider_link E rq d link s)"
  by (auto simp: consider_link_def push_def visit_def Let_def)

lemma fold_consider_link_visited:
  "visitedUrls s \<subseteq> visitedUrls (fold (consider_link E rq d) ls s)"
proof (induction ls arbitrary: s)
  case Nil
  show ?case by simp
next
  case (Cons l ls)
  from consider_link_visited [of s E rq d l] Cons [of "consider_link E rq d l s"]
  show ?case by auto
qed

lemma try_page_links_or_same [consumes 0, case_names same links]:
  assumes "queue (try_page E rq c s) = queue s \<Longrightarrow> pushed (try_page E rq c s) = pushed s \<Longrightarrow>
           visitedUrls (try_page E rq c s) = visitedUrls s \<Longrightarrow> P"
    and "\<And>s2 ls. includeUrls rq = None \<Longrightarrow>
           try_page E rq c s = fold (consider_link E rq (snd c)) ls s2 \<Longrightarrow>
           queue s2 = queue s \<Longrightarrow> pushed s2 = pushed s \<Longrightarrow>
           visitedUrls s2 = visitedUrls s \<Longrightarrow> P"
  shows P
proof (cases rule: try_page_cases [of E s c rq])
  case goto_fails
  show ?thesis by (rule assms(1)) (simp_all add: goto_fails(2) failed_def)
next
  case (rebase_fails page)
  show ?thesis by (rule assms(1)) (simp_all add: rebase_fails(3) failed_def)
next
  case (extract_fails page s1)
  from rebase_frame [OF extract_fails(2)] show ?thesis
    by (intro assms(1)) (simp_all add: extract_fails(4) failed_def)
next
  case (no_links page s1 r)
  from rebase_frame [OF no_links(2)] show ?thesis
    by (intro assms(1)) (simp_all add: no_links(5) counted_def)
next
  case (links_fail page s1 r)
  from rebase_frame [OF links_fail(2)] show ?thesis
    by (intro assms(1)) (simp_all add: links_fail(5) failed_def counted_def)
next
  case (links page s1 r ls)
  from rebase_frame [OF links(2)] show ?thesis
    by (intro assms(2) [OF links(4) links(5)]) (simp_all add: counted_def)
qed

lemma try_page_visited: "visitedUrls s \<subseteq> visitedUrls (try_page E rq c s)"
proof (cases rule: try_page_links_or_same [of E rq c s])
  case same
  then show ?thesis by simp
next
  case (links s2 ls)
  with fold_consider_link_visited [of s2 E rq "snd c" ls] show ?thesis by simp
qed

lemma step_visited: "visitedUrls s \<subseteq> visitedUrls (step E rq s)"
proof (cases "queue s = []")
  case True
  then show ?thesis by (simp add: step_def)
next
  case False
  then show ?thesis
  proof (cases rule: step_cases [where E = E and rq = rq])
    case (skipped c rest m)
    then show ?thesis by simp
  next
    case (tried c rest)
    with try_page_visited
      [of "s\<lparr>queue := rest, console := console s @ [Crawling (fst c) (snd c)]\<rparr>" E rq c]
    show ?thesis by simp
  qed
qed

lemma crawl_loop_visited:
  assumes "crawl_loop E rq cap s = Some t"
  shows "visitedUrls s \<subseteq> visitedUrls t"
  using assms
proof (rule crawl_loop_partial(1) [where I = "\<lambda>t. visitedUrls s \<subseteq> visitedUrls t"])
  show "visitedUrls s \<subseteq> visitedUrls s" by simp
next
  fix u :: crawl_state assume "visitedUrls s \<subseteq> visitedUrls u"
  with step_visited [of u E rq] show "visitedUrls s \<subseteq> visitedUrls (step E rq u)"
    by blast
qed

lemma consider_link_shape:
  "consider_link E rq d link s = s
   \<or> (normalizeUrl (parse E) link \<notin> visitedUrls s
      \<and> consider_link E rq d link s
          = push (link, d + 1) (visit (normalizeUrl (parse E) link) s))"
  unfolding consider_link_def Let_def by simp

lemma consider_link_no_duplicates:
  assumes "no_duplicates E s"
  shows "no_duplicates E (consider_link E rq d link s)"
proof -
  let ?n = "normalizeUrl (parse E) link"
  from consider_link_shape [of E rq d link s] show ?thesis
  proof
    assume "consider_link E rq d link s = s"
    with assms show ?thesis by simp
  next
    assume "?n \<notin> visitedUrls s
      \<and> consider_link E rq d link s = push (link, d + 1) (visit ?n s)"
    then have new: "?n \<notin> visitedUrls s"
      and eq: "consider_link E rq d link s = push (link, d + 1) (visit ?n s)"
      by simp_all
    from assms have d: "distinct (map (nf E) (pushed s))"
      and v: "nf E ` set (pushed s) \<subseteq> visitedUrls s"
      by (simp_all add: no_duplicates_def)
    from v new have "?n \<notin> nf E ` set (pushed s)"
      by blast
    with d have "distinct (map (nf E) (pushed s @ [(link, d + 1)]))"
      by (simp add: nf_def)
    moreover from v have "nf E ` set (pushed s @ [(link, d + 1)]) \<subseteq> insert ?n (visitedUrls s)"
      by (auto simp: nf_def)
    ultimately have "no_duplicates E (push (link, d + 1) (visit ?n s))"
      by (simp add: no_duplicates_def push_def visit_def)
    with eq show ?thesis by simp
  qed
qed

lemma fold_consider_link_no_duplicates:
  "no_duplicates E s \<Longrightarrow> no_duplicates E (fold (consider_link E rq d) ls s)"
  by (induction ls arbitrary: s) (simp_all add: consider_link_no_duplicates)

lemma try_page_no_duplicates:
  assumes "no_duplicates E s"
  shows "no_duplicates E (try_page E rq c s)"
proof (cases rule: try_page_links_or_same [of E rq c s])
  case same
  with assms show ?thesis by (simp add: no_duplicates_def)
next
  case (links s2 ls)
  with assms have "no_duplicates E s2" by (simp add: no_duplicates_def)
  then show ?thesis by (simp add: links(2) fold_consider_link_no_duplicates)
qed

lemma step_no_duplicates:
  assumes "no_duplicates E s"
  shows "no_duplicates E (step E rq s)"
proof (cases "queue s = []")
  case True
  with assms show ?thesis by (simp add: step_def)
next
  case False
  then show ?thesis
  proof (cases rule: step_cases [where E = E and rq = rq])
    case (skipped c rest m)
    with assms show ?thesis by (simp add: no_duplicates_def)
  next
    case (tried c rest)
    let ?s1 = "s\<lparr>queue := rest, console := console s @ [Crawling (fst c) (snd c)]\<rparr>"
    from assms have "no_duplicates E ?s1" by (simp add: no_duplicates_def)
    then show ?thesis by (simp add: tried(3) try_page_no_duplicates)
  qed
qed

lemma crawl_loop_no_duplicates:
  assumes "crawl_loop E rq cap s = Some t" and "no_duplicates E s"
  shows "no_duplicates E t"
  using assms by (rule crawl_loop_partial(1)) (rule step_no_duplicates)

lemma seed_single_no_duplicates:
  assumes "newCrawler E rq = Some s0"
    and "includeUrls rq = None \<or> includeUrls rq = Some []"
  shows "no_duplicates E (seed E rq s0)"
proof -
  from assms(2) have "seed E rq s0 = seed_one E (url rq) s0"
    by (auto simp: seed_def)
  with newCrawler_fresh [OF assms(1)] show ?thesis
    by (simp add: no_duplicates_def seed_one_def push_def visit_def nf_def)
qed

text \<open>
  C4, as stated, fails: a manifest is enqueued as it is listed, so a URL that the
  manifest repeats is enqueued twice.
\<close>

theorem enqueued_twice_counterexample:
  "newCrawler site_test twice_request = Some (fresh ''https://site.test'')
   \<and> map_option pushed (crawl site_test twice_request (fresh ''https://site.test''))
        = Some [(''https://site.test/a'', 0), (''https://site.test/a'', 0)]
   \<and> map_option (\<lambda>final. distinct (map fst (pushed final)))
        (crawl site_test twice_request (fresh ''https://site.test''))
        = Some False"
  by code_simp

text \<open>
  C4, amended. The visited set only grows, across one iteration and across the whole
  loop, which ends unless the page limit is \<open>Infinity\<close>. Membership decides whether
  a discovered link is enqueued: a link whose normalised URL is in the set leaves
  the state as it is, and a valid link under the seed prefix whose normalised URL is
  not in the set is enqueued and marked. In a run seeded from the seed URL (no
  manifest, or an empty one) no URL is enqueued twice: the enqueued entries have
  distinct normalised URLs, all in the visited set.
\<close>

theorem visited_grows_no_link_twice:
  "visitedUrls s \<subseteq> visitedUrls (step E rq s)
   \<and> (\<forall>t. crawl_loop E rq cap s = Some t \<longrightarrow> visitedUrls s \<subseteq> visitedUrls t)
   \<and> (cap \<noteq> Infinity \<longrightarrow> (\<exists>t. crawl_loop E rq cap s = Some t))
   \<and> (normalizeUrl (parse E) link \<in> visitedUrls s \<longrightarrow> consider_link E rq d link s = s)
   \<and> (isValidUrl (parse E) (regexTest E) (baseUrl s) (excludePatterns rq) link
        \<and> startsWith link (url rq) \<and> normalizeUrl (parse E) link \<notin> visitedUrls s \<longrightarrow>
        pushed (consider_link E rq d link s) = pushed s @ [(link, d + 1)]
        \<and> visitedUrls (consider_link E rq d link s)
            = insert (normalizeUrl (parse E) link) (visitedUrls s))
   \<and> (newCrawler E rq = Some s0 \<and> (includeUrls rq = None \<or> includeUrls rq = Some []) \<longrightarrow>
        (maxPages rq \<noteq> Some Infinity \<longrightarrow> (\<exists>final. crawl E rq s0 = Some final))
        \<and> (\<forall>final. crawl E rq s0 = Some final \<longrightarrow>
              distinct (map (\<lambda>e. normalizeUrl (parse E) (fst e)) (pushed final))
              \<and> distinct (map fst (pushed final))
              \<and> (\<lambda>e. normalizeUrl (parse E) (fst e)) ` set (pushed final)
                  \<subseteq> visitedUrls final))"
proof -
  have a: "normalizeUrl (parse E) link \<in> visitedUrls s \<longrightarrow> consider_link E rq d link s = s"
    by (simp add: consider_link_def Let_def)
  have b: "isValidUrl (parse E) (regexTest E) (baseUrl s) (excludePatterns rq) link
        \<and> startsWith link (url rq) \<and> normalizeUrl (parse E) link \<notin> visitedUrls s \<longrightarrow>
        pushed (consider_link E rq d link s) = pushed s @ [(link, d + 1)]
        \<and> visitedUrls (consider_link E rq d link s)
            = insert (normalizeUrl (parse E) link) (visitedUrls s)"
    by (simp add: consider_link_def Let_def push_def visit_def)
  have c: "distinct (map (\<lambda>e. normalizeUrl (parse E) (fst e)) (pushed final))
        \<and> distinct (map fst (pushed final))
        \<and> (\<lambda>e. normalizeUrl (parse E) (fst e)) ` set (pushed final) \<subseteq> visitedUrls final"
    if "newCrawler E rq = Some s0" "includeUrls rq = None \<or> includeUrls rq = Some []"
      and run: "crawl E rq s0 = Some final" for final
  proof -
    from run have "crawl_loop E rq (case maxPages rq of None \<Rightarrow> Num 50 | Some m \<Rightarrow> m)
                     (seed E rq s0) = Some final"
      by (simp add: crawl_def)
    from crawl_loop_no_duplicates [OF this seed_single_no_duplicates [OF that(1,2)]]
    have "no_duplicates E final" .
    then have d: "distinct (map (nf E) (pushed final))"
      and v: "nf E ` set (pushed final) \<subseteq> visitedUrls final"
      by (simp_all add: no_duplicates_def)
    have n: "nf E = (\<lambda>e. normalizeUrl (parse E) (fst e))"
      by (rule ext) (simp add: nf_def)
    have "distinct (map g ys) \<Longrightarrow> distinct ys" for g :: "string \<Rightarrow> string" and ys
      by (simp add: distinct_map)
    from this [of "normalizeUrl (parse E)" "map fst (pushed final)"] d
    have "distinct (map fst (pushed final))"
      by (simp add: n comp_def)
    with d v show ?thesis by (simp add: n)
  qed
  have e: "maxPages rq \<noteq> Some Infinity \<longrightarrow> (\<exists>final. crawl E rq s0 = Some final)"
    unfolding crawl_def by (auto intro: crawl_loop_returns split: option.splits)
  have f: "cap \<noteq> Infinity \<longrightarrow> (\<exists>t. crawl_loop E rq cap s = Some t)"
    by (auto intro: crawl_loop_returns)
  have g: "\<forall>t. crawl_loop E rq cap s = Some t \<longrightarrow> visitedUrls s \<subseteq> visitedUrls t"
    by (auto dest: crawl_loop_visited)
  have h: "visitedUrls s \<subseteq> visitedUrls (step E rq s)"
    by (rule step_visited)
  from c e have c': "newCrawler E rq = Some s0 \<and> (includeUrls rq = None \<or> includeUrls rq = Some [])
      \<longrightarrow> (maxPages rq \<noteq> Some Infinity \<longrightarrow> (\<exists>final. crawl E rq s0 = Some final))
        \<and> (\<forall>final. crawl E rq s0 = Some final \<longrightarrow>
              distinct (map (\<lambda>e. normalizeUrl (parse E) (fst e)) (pushed final))
              \<and> distinct (map fst (pushed final))
              \<and> (\<lambda>e. normalizeUrl (parse E) (fst e)) ` set (pushed final)
                  \<subseteq> visitedUrls final)"
    by blast
  show ?thesis
    by (intro conjI) (fact h g f a b c')+
qed

theorem visited_grows_no_link_twice_witness:
  "newCrawler site_test site_request = Some (fresh ''https://site.test'')
   \<and> includeUrls site_request = None
   \<and> (\<exists>final. crawl site_test site_request (fresh ''https://site.test'') = Some final
         \<and> distinct (map fst (pushed final))
         \<and> visitedUrls (seed site_test site_request (fresh ''https://site.test''))
             \<subseteq> visitedUrls final
         \<and> visitedUrls final
             = {''https://site.test/'', ''https://site.test/a'', ''https://site.test/b'',
                ''https://site.test/c'', ''https://site.test/d'', ''https://site.test/e''})
   \<and> visitedUrls (seed site_test site_request (fresh ''https://site.test''))
       = {''https://site.test/''}
   \<and> consider_link site_test site_request 0 ''https://site.test/#top''
         (seed site_test site_request (fresh ''https://site.test''))
       = seed site_test site_request (fresh ''https://site.test'')
   \<and> pushed (consider_link site_test site_request 0 ''https://site.test/a''
               (seed site_test site_request (fresh ''https://site.test'')))
       = [(''https://site.test/'', 0), (''https://site.test/a'', 1)]"
proof -
  let ?s = "seed site_test site_request (fresh ''https://site.test'')"
  let ?run = "crawl site_test site_request (fresh ''https://site.test'')"
  have n: "newCrawler site_test site_request = Some (fresh ''https://site.test'')"
    by code_simp
  have i: "includeUrls site_request = None"
    by (simp add: site_request_def)
  have ni: "newCrawler site_test site_request = Some (fresh ''https://site.test'')
            \<and> (includeUrls site_request = None \<or> includeUrls site_request = Some [])"
    using n i by simp
  have m: "maxPages site_request \<noteq> Some Infinity" and m': "Num 3 \<noteq> Infinity"
    by (simp_all add: site_request_def)
  have cr: "?run = crawl_loop site_test site_request (Num 3) ?s"
    by (simp add: crawl_def site_request_def)
  have v: "map_option visitedUrls ?run
       = Some {''https://site.test/'', ''https://site.test/a'', ''https://site.test/b'',
               ''https://site.test/c'', ''https://site.test/d'', ''https://site.test/e''}"
    by code_simp
  have v0: "visitedUrls ?s = {''https://site.test/''}"
    and p0: "pushed ?s = [(''https://site.test/'', 0)]"
    by code_simp+
  have seen: "normalizeUrl (parse site_test) ''https://site.test/#top'' \<in> visitedUrls ?s"
    by code_simp
  have new: "isValidUrl (parse site_test) (regexTest site_test) (baseUrl ?s)
               (excludePatterns site_request) ''https://site.test/a''
             \<and> startsWith ''https://site.test/a'' (url site_request)
             \<and> normalizeUrl (parse site_test) ''https://site.test/a'' \<notin> visitedUrls ?s"
    by code_simp
  note thm1 = visited_grows_no_link_twice
         [of ?s site_test site_request "Num 3" "''https://site.test/#top''" 0
             "fresh ''https://site.test''"]
  note thm2 = visited_grows_no_link_twice
         [of ?s site_test site_request "Num 3" "''https://site.test/a''" 0
             "fresh ''https://site.test''"]
  note seeded = thm1 [THEN conjunct2, THEN conjunct2, THEN conjunct2, THEN conjunct2,
                      THEN conjunct2, rule_format, OF ni]
  from seeded [THEN conjunct1, rule_format, OF m] obtain final where run: "?run = Some final" ..
  from seeded [THEN conjunct2, rule_format, OF run]
  have a: "distinct (map fst (pushed final))"
    by simp
  from run cr have "crawl_loop site_test site_request (Num 3) ?s = Some final"
    by simp
  from thm1 [THEN conjunct2, THEN conjunct1, rule_format, OF this]
  have g: "visitedUrls ?s \<subseteq> visitedUrls final" .
  from thm1 [THEN conjunct2, THEN conjunct2, THEN conjunct2, THEN conjunct1, rule_format, OF seen]
  have b: "consider_link site_test site_request 0 ''https://site.test/#top'' ?s = ?s" .
  from thm2 [THEN conjunct2, THEN conjunct2, THEN conjunct2, THEN conjunct2, THEN conjunct1,
             rule_format, OF new]
  have "pushed (consider_link site_test site_request 0 ''https://site.test/a'' ?s)
          = pushed ?s @ [(''https://site.test/a'', 0 + 1)]"
    by simp
  with p0 have c: "pushed (consider_link site_test site_request 0 ''https://site.test/a'' ?s)
          = [(''https://site.test/'', 0), (''https://site.test/a'', 1)]"
    by simp
  from v run have vf: "visitedUrls final
             = {''https://site.test/'', ''https://site.test/a'', ''https://site.test/b'',
                ''https://site.test/c'', ''https://site.test/d'', ''https://site.test/e''}"
    by simp
  show ?thesis
    by (intro conjI exI [of _ final]) (fact n i run a g vf v0 b c)+
qed

section \<open>Manifest mode\<close>
















section \<open>Redirect of the seed to another origin\<close>


















section \<open>Properties of sitemap discovery\<close>








lemma probe_first_hit:
  "fetchSitemap N k (base @ path) = Some (x # xs) \<Longrightarrow>
     probe N k base [] (path # rest) = Some (x # xs)"
  by simp

lemma probe_next:
  "fetchSitemap N k (base @ path) = Some [] \<Longrightarrow>
     probe N k base [] (path # rest) = probe N k base [] rest"
  by simp

lemma getUrlsFromRobotsTxt_probes_after_200:
  assumes "axios_get N (base @ ''/robots.txt'') = Some response" and "status response = 200"
    and "data response = Text body"
    and "from_lines N k []
           (filter (\<lambda>line. startsWith (toLowerCase line) ''sitemap:'')
              (js_split body [CHR 0x0A])) = Some []"
  shows "getUrlsFromRobotsTxt N k base
           = probe N k base [] [''/sitemap.xml'', ''/sitemap_index.xml'', ''/wp-sitemap.xml'']"
  using assms by (simp add: getUrlsFromRobotsTxt_def commonSitemaps_def Let_def)

lemma getUrlsFromRobotsTxt_not_text:
  assumes "axios_get N (base @ ''/robots.txt'') = Some response" and "data response = NotText"
  shows "getUrlsFromRobotsTxt N k base = Some []"
  using assms by (simp add: getUrlsFromRobotsTxt_def)

text \<open>
  C2. The statement holds after a \<open>robots.txt\<close> with status 200 (the three lemmas above),
  but not when \<open>robots.txt\<close> is absent: on \<open>no_robots\<close> the probe of \<open>/sitemap.xml\<close> would
  yield a URL, and \<open>getUrlsFromRobotsTxt\<close> returns the empty list without probing,
  whatever the fuel.
\<close>

theorem robots_absent_skips_probes:
  "axios_get no_robots ''https://ex.com/robots.txt''
     = Some \<lparr>status = 404, data = Text ''Not Found''\<rparr>
   \<and> fetchSitemap no_robots (Suc k) ''https://ex.com/sitemap.xml'' = Some [''https://ex.com/a'']
   \<and> probe no_robots (Suc k) ''https://ex.com'' [] commonSitemaps = Some [''https://ex.com/a'']
   \<and> getUrlsFromRobotsTxt no_robots (Suc k) ''https://ex.com'' = Some []"
proof -
  have a: "axios_get no_robots ''https://ex.com/robots.txt''
             = Some \<lparr>status = 404, data = Text ''Not Found''\<rparr>"
    by (simp add: no_robots_def)
  have f: "fetchSitemap no_robots (Suc k) ''https://ex.com/sitemap.xml'' = Some [''https://ex.com/a'']"
    by (simp add: no_robots_def urlset_doc_def collect_locs_def)
  from f have p: "probe no_robots (Suc k) ''https://ex.com'' [] commonSitemaps
                    = Some [''https://ex.com/a'']"
    by (simp add: commonSitemaps_def del: fetchSitemap.simps)
  from a have g: "getUrlsFromRobotsTxt no_robots (Suc k) ''https://ex.com'' = Some []"
    by (simp add: getUrlsFromRobotsTxt_def del: fetchSitemap.simps)
  from a f p g show ?thesis by blast
qed

end
